theory Spec2Isabelle
  imports Complex_Main "HOL-Library.Sublist" "HOL-Library.List_Lexorder"
begin

section \<open>Strings and numbers of the host language\<close>

text \<open>
  A string is the list of its UTF-16 code units, as the language indexes it; a code unit
  is a number below 65536. Literals of the program are written \<open>js ''...''\<close>. White
  space is what \<open>trim\<close> removes and \<open>\s\<close> matches: the white space characters and the line
  terminators of the language. The case mappings are those of the host; they are a
  parameter of every function that uses them, so that nothing here depends on which
  characters they change or on the length of their results.
\<close>

type_synonym jstring = "nat list"

definition js :: "string \<Rightarrow> jstring" where
  "js s = map of_char s"

record host =
  toUpperCase :: "jstring \<Rightarrow> jstring"
  toLowerCase :: "jstring \<Rightarrow> jstring"

definition isLineTerminator :: "nat \<Rightarrow> bool" where
  "isLineTerminator c = (c \<in> set [0x0A, 0x0D, 0x2028, 0x2029])"

definition isSpace :: "nat \<Rightarrow> bool" where
  "isSpace c =
     (c \<in> set [0x09, 0x0B, 0x0C, 0x20, 0xA0, 0x1680, 0x202F, 0x205F, 0x3000, 0xFEFF]
      \<or> (0x2000 \<le> c \<and> c \<le> 0x200A)
      \<or> isLineTerminator c)"

definition isDigit :: "nat \<Rightarrow> bool" where
  "isDigit c = (48 \<le> c \<and> c \<le> 57)"

text \<open>\<open>String.prototype.trim\<close>: white space is removed at both ends.\<close>

definition trim :: "jstring \<Rightarrow> jstring" where
  "trim s = rev (dropWhile isSpace (rev (dropWhile isSpace s)))"

text \<open>
  A number is a double. The only numbers the modelled code handles are integers and
  \<open>Infinity\<close>: \<open>parseInt\<close> on a run of decimal digits (the only argument the grammar
  passes) gives the double nearest to the integer the digits write, ties to the even
  significand, and \<open>Infinity\<close> when that is out of range. Below \<open>2 ^ 53\<close> it is the integer
  itself.
\<close>

datatype js_number = Num int | Infinity

fun bitLength :: "nat \<Rightarrow> nat" where
  "bitLength n = (if n = 0 then 0 else Suc (bitLength (n div 2)))"

declare bitLength.simps [simp del]

definition toDouble :: "nat \<Rightarrow> js_number" where
  "toDouble v =
     (if v < 2 ^ 53 then Num (int v)
      else
        (let e = bitLength v - 53;
             q = v div 2 ^ e;
             r = v mod 2 ^ e;
             half = 2 ^ (e - 1);
             q' = (if half < r \<or> (r = half \<and> odd q) then q + 1 else q);
             m = q' * 2 ^ e
         in if 2 ^ 1024 \<le> m then Infinity else Num (int m)))"

definition decimal :: "jstring \<Rightarrow> nat" where
  "decimal ds = foldl (\<lambda>a c. 10 * a + (c - 48)) 0 ds"

definition parseInt :: "jstring \<Rightarrow> js_number" where
  "parseInt ds = toDouble (decimal ds)"

text \<open>\<open>includes\<close>, \<open>startsWith\<close> and \<open>endsWith\<close>.\<close>

definition includesChar :: "jstring \<Rightarrow> nat \<Rightarrow> bool" where
  "includesChar s c = (c \<in> set s)"

definition startsWith :: "jstring \<Rightarrow> jstring \<Rightarrow> bool" where
  "startsWith s p = (take (length p) s = p)"

definition endsWith :: "jstring \<Rightarrow> jstring \<Rightarrow> bool" where
  "endsWith s p = (drop (length s - length p) s = p \<and> length p \<le> length s)"

definition includesStr :: "jstring \<Rightarrow> jstring \<Rightarrow> bool" where
  "includesStr s sub = sublist sub s"


section \<open>The regular expressions of the command grammar\<close>

text \<open>
  Every pattern of \<open>parseCommand\<close> is anchored at both ends and is a sequence of literals
  and of one-or-more repetitions of a character class (\<open>\s+\<close>, \<open>.+\<close>, \<open>.+?\<close>, \<open>\d+\<close>),
  some of them capture groups. The matcher is the backtracking one of the language: a
  greedy repetition tries the longest run first, a lazy one the shortest, and the first
  alternative whose continuation matches the rest of the input wins.
\<close>

datatype cclass = Space | AnyChar | Digit

datatype quant = Greedy | Lazy

datatype rx_item = Lit jstring | Plus cclass quant | Capture cclass quant

fun inClass :: "cclass \<Rightarrow> nat \<Rightarrow> bool" where
  "inClass Space c = isSpace c"
| "inClass AnyChar c = (\<not> isLineTerminator c)"
| "inClass Digit c = isDigit c"

definition run :: "cclass \<Rightarrow> jstring \<Rightarrow> nat" where
  "run k s = length (takeWhile (inClass k) s)"

fun candidates :: "quant \<Rightarrow> nat \<Rightarrow> nat list" where
  "candidates Greedy m = rev [1..<Suc m]"
| "candidates Lazy m = [1..<Suc m]"

fun firstSome :: "('a \<Rightarrow> 'b option) \<Rightarrow> 'a list \<Rightarrow> 'b option" where
  "firstSome f [] = None"
| "firstSome f (x # xs) = (case f x of Some y \<Rightarrow> Some y | None \<Rightarrow> firstSome f xs)"

fun rx_match :: "rx_item list \<Rightarrow> jstring \<Rightarrow> jstring list option" where
  "rx_match [] s = (if s = [] then Some [] else None)"
| "rx_match (Lit l # r) s =
     (if take (length l) s = l then rx_match r (drop (length l) s) else None)"
| "rx_match (Plus k q # r) s =
     firstSome (\<lambda>n. rx_match r (drop n s)) (candidates q (run k s))"
| "rx_match (Capture k q # r) s =
     firstSome (\<lambda>n. map_option ((#) (take n s)) (rx_match r (drop n s)))
       (candidates q (run k s))"

definition rx_test :: "rx_item list \<Rightarrow> jstring \<Rightarrow> bool" where
  "rx_test p s = (rx_match p s \<noteq> None)"

definition listPattern :: "rx_item list" where
  "listPattern = [Lit (js ''LIST''), Plus Space Greedy, Capture AnyChar Greedy]"

definition listPagePattern :: "rx_item list" where
  "listPagePattern = [Lit (js ''LIST''), Plus Space Greedy, Capture AnyChar Lazy,
     Plus Space Greedy, Lit (js ''PAGE''), Plus Space Greedy, Capture Digit Greedy]"

definition deletePattern :: "rx_item list" where
  "deletePattern = [Lit (js ''DELETE''), Plus Space Greedy, Capture AnyChar Greedy]"

definition deleteConfirmPattern :: "rx_item list" where
  "deleteConfirmPattern = [Lit (js ''DELETE''), Plus Space Greedy, Capture AnyChar Lazy,
     Plus Space Greedy, Lit (js ''CONFIRM'')]"

definition movePattern :: "rx_item list" where
  "movePattern = [Lit (js ''MOVE''), Plus Space Greedy, Capture AnyChar Lazy,
     Plus Space Greedy, Capture AnyChar Greedy]"

definition summaryPattern :: "rx_item list" where
  "summaryPattern = [Lit (js ''SUMMARY''), Plus Space Greedy, Capture AnyChar Greedy]"

definition helpPattern :: "rx_item list" where
  "helpPattern = [Lit (js ''HELP'')]"


section \<open>parseCommand\<close>

text \<open>
  The object returned by \<open>parseCommand\<close>: its \<open>command\<close> tag with the fields that tag
  carries. Reading a group of a \<open>null\<close> match would throw; that is the error branch of
  each case, so that the absence of an exception is a statement about the function.
\<close>

datatype intent =
    LIST jstring js_number
  | DELETE_CONFIRM jstring
  | DELETE_REQUEST jstring
  | MOVE jstring jstring
  | SUMMARY jstring
  | HELP
  | UNKNOWN

datatype js_error = TypeError

definition summaryPath :: "jstring \<Rightarrow> jstring" where
  "summaryPath g =
     (let path = trim g
      in if startsWith path (js ''/'') \<and> includesChar path 0x2E then trim (drop 1 path)
         else path)"

definition parseCommand :: "host \<Rightarrow> jstring \<Rightarrow> js_error + intent" where
  "parseCommand h messageBody =
     (let body = toUpperCase h (trim messageBody)
      in if rx_test listPagePattern body then
           (case rx_match listPagePattern body of
              Some [p, n] \<Rightarrow> Inr (LIST p (parseInt n)) | _ \<Rightarrow> Inl TypeError)
         else if rx_test listPattern body then
           (case rx_match listPattern body of
              Some [p] \<Rightarrow> Inr (LIST p (Num 1)) | _ \<Rightarrow> Inl TypeError)
         else if rx_test deleteConfirmPattern body then
           (case rx_match deleteConfirmPattern body of
              Some [p] \<Rightarrow> Inr (DELETE_CONFIRM p) | _ \<Rightarrow> Inl TypeError)
         else if rx_test deletePattern body then
           (case rx_match deletePattern body of
              Some [p] \<Rightarrow> Inr (DELETE_REQUEST p) | _ \<Rightarrow> Inl TypeError)
         else if rx_test movePattern body then
           (case rx_match movePattern body of
              Some [src, dst] \<Rightarrow> Inr (MOVE src dst) | _ \<Rightarrow> Inl TypeError)
         else if rx_test summaryPattern body then
           (case rx_match summaryPattern body of
              Some [p] \<Rightarrow> Inr (SUMMARY (summaryPath p)) | _ \<Rightarrow> Inl TypeError)
         else if rx_test helpPattern body then Inr HELP
         else Inr UNKNOWN)"

text \<open>The patterns in the order \<open>parseCommand\<close> tests them, and the path fields of an intent.\<close>

definition commandPatterns :: "rx_item list list" where
  "commandPatterns = [listPagePattern, listPattern, deleteConfirmPattern, deletePattern,
     movePattern, summaryPattern, helpPattern]"

fun isCapture :: "rx_item \<Rightarrow> bool" where
  "isCapture (Capture k q) = True"
| "isCapture (Lit l) = False"
| "isCapture (Plus k q) = False"

fun intentPaths :: "intent \<Rightarrow> jstring list" where
  "intentPaths (LIST folderPath pg) = [folderPath]"
| "intentPaths (DELETE_CONFIRM filePath) = [filePath]"
| "intentPaths (DELETE_REQUEST filePath) = [filePath]"
| "intentPaths (MOVE sourcePath destinationPath) = [sourcePath, destinationPath]"
| "intentPaths (SUMMARY folderPath) = [folderPath]"
| "intentPaths HELP = []"
| "intentPaths UNKNOWN = []"


section \<open>The remote store\<close>

text \<open>
  The Drive client is a collaborator of the program: the model keeps the entries of the
  store in the order the store returns them, the calls made so far, and a schedule of
  transport faults (the head of \<open>faults\<close> decides whether the next call throws, and with
  which message). A \<open>q\<close> string is a conjunction of the four conditions the program
  writes; \<open>name = '...'\<close> compares names exactly, and the path placed between the quotes
  is taken as the name it stands for. A list call returns every entry that satisfies the
  conditions. The identifier \<open>root\<close> is the one the children of the root folder carry in
  \<open>parents\<close>. \<open>removeParents\<close> is passed as the list of identifiers that the program
  joins with commas; the store removes them and then adds \<open>addParents\<close>. Deleting or
  updating an identifier the store does not hold is an error of the call.
\<close>

record drive_file =
  fileId :: jstring
  name :: jstring
  mimeType :: jstring
  trashed :: bool
  parents :: "jstring list"
  content :: jstring

datatype q_atom = NameEq jstring | MimeEq jstring | NotTrashed | InParents jstring

datatype api_call =
    FilesList "q_atom list" bool
  | FilesDelete jstring
  | FilesUpdate jstring jstring "jstring list"
  | FilesGet jstring

record drive =
  store :: "drive_file list"
  calls :: "api_call list"
  faults :: "jstring option list"

definition folderMime :: jstring where
  "folderMime = js ''application/vnd.google-apps.folder''"

fun satisfies :: "drive_file \<Rightarrow> q_atom \<Rightarrow> bool" where
  "satisfies f (NameEq n) = (name f = n)"
| "satisfies f (MimeEq t) = (mimeType f = t)"
| "satisfies f NotTrashed = (\<not> trashed f)"
| "satisfies f (InParents i) = (i \<in> set (parents f))"

definition answer :: "q_atom list \<Rightarrow> bool \<Rightarrow> drive_file list \<Rightarrow> drive_file list" where
  "answer q orderByName fs =
     (let r = filter (\<lambda>f. list_all (satisfies f) q) fs
      in if orderByName then sort_key name r else r)"

definition nextFault :: "drive \<Rightarrow> jstring option" where
  "nextFault d = (case faults d of [] \<Rightarrow> None | x # _ \<Rightarrow> x)"

definition called :: "api_call \<Rightarrow> drive \<Rightarrow> drive" where
  "called c d = d\<lparr>calls := calls d @ [c], faults := tl (faults d)\<rparr>"

text \<open>Each call returns the thrown message (\<open>Inl\<close>) or the response data (\<open>Inr\<close>).\<close>

definition drive_files_list :: "q_atom list \<Rightarrow> bool \<Rightarrow> drive \<Rightarrow> (jstring + drive_file list) \<times> drive" where
  "drive_files_list q orderByName d =
     (case nextFault d of
        Some err \<Rightarrow> (Inl err, called (FilesList q orderByName) d)
      | None \<Rightarrow> (Inr (answer q orderByName (store d)), called (FilesList q orderByName) d))"

definition drive_files_delete :: "jstring \<Rightarrow> drive \<Rightarrow> (jstring + unit) \<times> drive" where
  "drive_files_delete i d =
     (case nextFault d of
        Some err \<Rightarrow> (Inl err, called (FilesDelete i) d)
      | None \<Rightarrow>
          if i \<in> set (map fileId (store d))
          then (Inr (), (called (FilesDelete i) d)\<lparr>store := filter (\<lambda>f. fileId f \<noteq> i) (store d)\<rparr>)
          else (Inl (js ''File not found: '' @ i), called (FilesDelete i) d))"

definition reparent :: "jstring \<Rightarrow> jstring list \<Rightarrow> jstring list \<Rightarrow> jstring list" where
  "reparent addParents removeParents ps =
     (let kept = filter (\<lambda>p. p \<notin> set removeParents) ps
      in if addParents \<in> set kept then kept else kept @ [addParents])"

definition drive_files_update :: "jstring \<Rightarrow> jstring \<Rightarrow> jstring list \<Rightarrow> drive \<Rightarrow> (jstring + unit) \<times> drive" where
  "drive_files_update i addParents removeParents d =
     (case nextFault d of
        Some err \<Rightarrow> (Inl err, called (FilesUpdate i addParents removeParents) d)
      | None \<Rightarrow>
          if i \<in> set (map fileId (store d))
          then (Inr (), (called (FilesUpdate i addParents removeParents) d)
                  \<lparr>store := map (\<lambda>f. if fileId f = i
                                      then f\<lparr>parents := reparent addParents removeParents (parents f)\<rparr>
                                      else f) (store d)\<rparr>)
          else (Inl (js ''File not found: '' @ i), called (FilesUpdate i addParents removeParents) d))"

definition drive_files_get :: "jstring \<Rightarrow> drive \<Rightarrow> (jstring + jstring) \<times> drive" where
  "drive_files_get i d =
     (case nextFault d of
        Some err \<Rightarrow> (Inl err, called (FilesGet i) d)
      | None \<Rightarrow>
          (case find (\<lambda>f. fileId f = i) (store d) of
             Some f \<Rightarrow> (Inr (content f), called (FilesGet i) d)
           | None \<Rightarrow> (Inl (js ''File not found: '' @ i), called (FilesGet i) d)))"


section \<open>Drive operations\<close>

text \<open>
  Every operation runs inside \<open>try\<close>/\<open>catch\<close> and returns an object: \<open>Inl\<close> is the
  \<open>error\<close> field (a returned message or the message of a caught exception), \<open>Inr\<close> the
  success object. In the success objects of \<open>deleteFile\<close> and \<open>moveFile\<close> the field
  \<open>fileName\<close> is \<open>deletedName\<close> and \<open>movedName\<close> here, and \<open>success: true\<close> is the
  \<open>Inr\<close> itself. Reading \<open>files[0]\<close> of an empty array would throw; the branches where
  that could happen are written out.
\<close>

definition quoted :: "jstring \<Rightarrow> jstring" where
  "quoted s = [0x27] @ s @ [0x27]"

definition sameNameCI :: "host \<Rightarrow> jstring \<Rightarrow> drive_file \<Rightarrow> bool" where
  "sameNameCI h path f = (toLowerCase h (name f) = toLowerCase h path)"

text \<open>
  The arithmetic of \<open>listFiles\<close> on the page number. The differences and products are
  the exact ones: where the code's are rounded (from \<open>2 ^ 53\<close> on) they lie, as the exact
  ones do, beyond the length of any array, which is all \<open>slice\<close> takes from them.
\<close>

fun js_minus :: "js_number \<Rightarrow> int \<Rightarrow> js_number" where
  "js_minus (Num a) b = Num (a - b)"
| "js_minus Infinity b = Infinity"

fun js_plus :: "js_number \<Rightarrow> int \<Rightarrow> js_number" where
  "js_plus (Num a) b = Num (a + b)"
| "js_plus Infinity b = Infinity"

text \<open>The product with a positive number.\<close>

fun js_times :: "js_number \<Rightarrow> int \<Rightarrow> js_number" where
  "js_times (Num a) b = Num (a * b)"
| "js_times Infinity b = Infinity"

text \<open>\<open>Array.prototype.slice(start, end)\<close>, with its treatment of negative indices.\<close>

fun sliceIndex :: "int \<Rightarrow> js_number \<Rightarrow> int" where
  "sliceIndex len (Num i) = (if i < 0 then max (len + i) 0 else min i len)"
| "sliceIndex len Infinity = len"

definition js_slice :: "'a list \<Rightarrow> js_number \<Rightarrow> js_number \<Rightarrow> 'a list" where
  "js_slice xs start fin =
     (let len = int (length xs);
          k = sliceIndex len start;
          e = sliceIndex len fin
      in take (nat (e - k)) (drop (nat k) xs))"

record list_result =
  files :: "drive_file list"
  totalFiles :: nat
  page :: js_number
  totalPages :: int

definition pageSize :: int where
  "pageSize = 10"

definition listFiles :: "host \<Rightarrow> jstring \<Rightarrow> js_number \<Rightarrow> drive \<Rightarrow> (jstring + list_result) \<times> drive" where
  "listFiles h folderPath pg d0 =
     (case (if folderPath \<noteq> js ''/'' \<and> folderPath \<noteq> js ''ROOT'' then
              (case drive_files_list [NameEq folderPath, MimeEq folderMime] False d0 of
                 (Inl err, d1) \<Rightarrow> (Inl err, d1)
               | (Inr folders, d1) \<Rightarrow>
                   if length folders = 0 then
                     (case drive_files_list [MimeEq folderMime] False d1 of
                        (Inl err, d2) \<Rightarrow> (Inl err, d2)
                      | (Inr searchFolders, d2) \<Rightarrow>
                          (case find (sameNameCI h folderPath) searchFolders of
                             Some matchingFolder \<Rightarrow> (Inr (fileId matchingFolder), d2)
                           | None \<Rightarrow> (Inl (js ''Folder '' @ quoted folderPath @ js '' not found''), d2)))
                   else (case folders of
                           f # _ \<Rightarrow> (Inr (fileId f), d1)
                         | [] \<Rightarrow> (Inl (js ''TypeError''), d1)))
            else (Inr (js ''root''), d0)) of
        (Inl err, d3) \<Rightarrow> (Inl err, d3)
      | (Inr folderId, d3) \<Rightarrow>
          (case drive_files_list [InParents folderId, NotTrashed] True d3 of
             (Inl err, d4) \<Rightarrow> (Inl err, d4)
           | (Inr allFiles, d4) \<Rightarrow>
               (let startIndex = js_times (js_minus pg 1) pageSize;
                    endIndex = js_plus startIndex pageSize;
                    paginatedFiles = js_slice allFiles startIndex endIndex
                in (Inr \<lparr>files = paginatedFiles,
                          totalFiles = length allFiles,
                          page = pg,
                          totalPages = \<lceil>real (length allFiles) / real_of_int pageSize\<rceil>\<rparr>, d4))))"

record delete_result =
  deletedName :: jstring

definition deleteFile :: "host \<Rightarrow> jstring \<Rightarrow> drive \<Rightarrow> (jstring + delete_result) \<times> drive" where
  "deleteFile h filePath d0 =
     (case drive_files_list [NameEq filePath, NotTrashed] False d0 of
        (Inl err, d1) \<Rightarrow> (Inl err, d1)
      | (Inr found, d1) \<Rightarrow>
          (case (if length found = 0 then
                   (case drive_files_list [NotTrashed] False d1 of
                      (Inl err, d2) \<Rightarrow> (Inl err, d2)
                    | (Inr allFiles, d2) \<Rightarrow>
                        (case find (sameNameCI h filePath) allFiles of
                           None \<Rightarrow> (Inl (js ''File '' @ quoted filePath @ js '' not found''), d2)
                         | Some matchingFile \<Rightarrow> (Inr [matchingFile], d2)))
                 else (Inr found, d1)) of
             (Inl err, d3) \<Rightarrow> (Inl err, d3)
           | (Inr [], d3) \<Rightarrow> (Inl (js ''TypeError''), d3)
           | (Inr (f # _), d3) \<Rightarrow>
               (case drive_files_delete (fileId f) d3 of
                  (Inl err, d4) \<Rightarrow> (Inl err, d4)
                | (Inr _, d4) \<Rightarrow> (Inr \<lparr>deletedName = filePath\<rparr>, d4))))"

record move_result =
  movedName :: jstring
  destination :: jstring

definition moveFile :: "host \<Rightarrow> jstring \<Rightarrow> jstring \<Rightarrow> drive \<Rightarrow> (jstring + move_result) \<times> drive" where
  "moveFile h sourcePath destinationPath d0 =
     (case drive_files_list [NameEq sourcePath, NotTrashed] False d0 of
        (Inl err, d1) \<Rightarrow> (Inl err, d1)
      | (Inr found, d1) \<Rightarrow>
          (case (if length found = 0 then
                   (case drive_files_list [NotTrashed] False d1 of
                      (Inl err, d2) \<Rightarrow> (Inl err, d2)
                    | (Inr allFiles, d2) \<Rightarrow>
                        (case find (sameNameCI h sourcePath) allFiles of
                           None \<Rightarrow> (Inl (js ''Source file '' @ quoted sourcePath @ js '' not found''), d2)
                         | Some matchingFile \<Rightarrow> (Inr [matchingFile], d2)))
                 else (Inr found, d1)) of
             (Inl err, d3) \<Rightarrow> (Inl err, d3)
           | (Inr [], d3) \<Rightarrow> (Inl (js ''TypeError''), d3)
           | (Inr (sourceFile # _), d3) \<Rightarrow>
               (case (if destinationPath \<noteq> js ''/'' \<and> destinationPath \<noteq> js ''ROOT'' then
                        (case drive_files_list [NameEq destinationPath, MimeEq folderMime] False d3 of
                           (Inl err, d4) \<Rightarrow> (Inl err, d4)
                         | (Inr folders, d4) \<Rightarrow>
                             if length folders = 0 then
                               (case drive_files_list [MimeEq folderMime] False d4 of
                                  (Inl err, d5) \<Rightarrow> (Inl err, d5)
                                | (Inr allFolders, d5) \<Rightarrow>
                                    (case find (sameNameCI h destinationPath) allFolders of
                                       None \<Rightarrow> (Inl (js ''Destination folder '' @ quoted destinationPath
                                                      @ js '' not found''), d5)
                                     | Some matchingFolder \<Rightarrow> (Inr (fileId matchingFolder), d5)))
                             else (case folders of
                                     f # _ \<Rightarrow> (Inr (fileId f), d4)
                                   | [] \<Rightarrow> (Inl (js ''TypeError''), d4)))
                      else (Inr (js ''root''), d3)) of
                  (Inl err, d6) \<Rightarrow> (Inl err, d6)
                | (Inr destinationId, d6) \<Rightarrow>
                    (let previousParents = parents sourceFile
                     in case drive_files_update (fileId sourceFile) destinationId previousParents d6 of
                          (Inl err, d7) \<Rightarrow> (Inl err, d7)
                        | (Inr _, d7) \<Rightarrow>
                            (Inr \<lparr>movedName = sourcePath, destination = destinationPath\<rparr>, d7)))))"


section \<open>Summaries\<close>

text \<open>
  The request \<open>summarizeWithGemini\<close> posts: the URL with the API key, the prompt and the
  content type header. The service is a parameter: it throws a message (\<open>Inl\<close>), answers
  without a candidate (\<open>Inr None\<close>) or with the text of the first candidate.
\<close>

record gemini_request =
  url :: jstring
  prompt :: jstring
  contentType :: jstring

definition newline :: jstring where
  "newline = [0x0A]"

definition geminiRequest :: "jstring \<Rightarrow> jstring \<Rightarrow> jstring \<Rightarrow> gemini_request" where
  "geminiRequest key cont fileName =
     \<lparr>url = js ''https://generativelanguage.googleapis.com/v1beta/models/gemini-1.5-flash:generateContent?key='' @ key,
      prompt = js ''Please provide a concise summary of the following document content. Focus on key points, main topics, and important information. Keep the summary under 200 words.''
        @ newline @ newline @ js ''Document Name: '' @ fileName @ newline @ newline
        @ js ''Content:'' @ newline @ take 4000 cont,
      contentType = js ''application/json''\<rparr>"

definition summarizeWithGemini ::
  "(gemini_request \<Rightarrow> jstring + jstring option) \<Rightarrow> jstring \<Rightarrow> jstring \<Rightarrow> jstring \<Rightarrow> jstring" where
  "summarizeWithGemini post key cont fileName =
     (case post (geminiRequest key cont fileName) of
        Inl err \<Rightarrow> js ''Error generating summary: '' @ err
      | Inr None \<Rightarrow> js ''Unable to generate summary''
      | Inr (Some t) \<Rightarrow> t)"

definition summarizable :: "drive_file \<Rightarrow> bool" where
  "summarizable f =
     (includesStr (mimeType f) (js ''text/'') \<or>
      includesStr (mimeType f) (js ''application/pdf'') \<or>
      includesStr (mimeType f) (js ''application/vnd.google-apps.document'') \<or>
      includesStr (mimeType f) (js ''application/vnd.openxmlformats-officedocument''))"

type_synonym summaries = "(jstring \<times> jstring) list"

definition summarizeSpecificFile ::
  "(gemini_request \<Rightarrow> jstring + jstring option) \<Rightarrow> jstring \<Rightarrow> jstring \<Rightarrow> drive
     \<Rightarrow> (jstring + summaries) \<times> drive" where
  "summarizeSpecificFile post key fileName d0 =
     (case drive_files_list [NameEq fileName, NotTrashed] False d0 of
        (Inl err, d1) \<Rightarrow> (Inl err, d1)
      | (Inr [], d1) \<Rightarrow> (Inl (js ''File '' @ quoted fileName @ js '' not found''), d1)
      | (Inr (f # _), d1) \<Rightarrow>
          if \<not> summarizable f
          then (Inl (js ''File type '' @ quoted (mimeType f) @ js '' cannot be summarized''), d1)
          else (case drive_files_get (fileId f) d1 of
                  (Inl err, d2) \<Rightarrow> (Inl (js ''Unable to process file: '' @ err), d2)
                | (Inr cont, d2) \<Rightarrow>
                    (Inr [(name f, summarizeWithGemini post key cont (name f))], d2)))"

fun summarizeEach ::
  "(gemini_request \<Rightarrow> jstring + jstring option) \<Rightarrow> jstring \<Rightarrow> drive_file list \<Rightarrow> drive
     \<Rightarrow> summaries \<times> drive" where
  "summarizeEach post key [] d = ([], d)"
| "summarizeEach post key (f # fs) d =
     (if summarizable f then
        (case drive_files_get (fileId f) d of
           (Inl err, d1) \<Rightarrow>
             (let (rest, d2) = summarizeEach post key fs d1
              in ((name f, js ''Unable to process file: '' @ err) # rest, d2))
         | (Inr cont, d1) \<Rightarrow>
             (let (rest, d2) = summarizeEach post key fs d1
              in ((name f, summarizeWithGemini post key cont (name f)) # rest, d2)))
      else summarizeEach post key fs d)"

definition summarizeFolder ::
  "host \<Rightarrow> (gemini_request \<Rightarrow> jstring + jstring option) \<Rightarrow> jstring \<Rightarrow> jstring \<Rightarrow> drive
     \<Rightarrow> (jstring + summaries) \<times> drive" where
  "summarizeFolder h post key folderPath d0 =
     (case listFiles h folderPath (Num 1) d0 of
        (Inl err, d1) \<Rightarrow> (Inl err, d1)
      | (Inr filesResult, d1) \<Rightarrow>
          (let (summ, d2) = summarizeEach post key (files filesResult) d1 in (Inr summ, d2)))"

definition summarizeContent ::
  "host \<Rightarrow> (gemini_request \<Rightarrow> jstring + jstring option) \<Rightarrow> jstring \<Rightarrow> jstring \<Rightarrow> drive
     \<Rightarrow> (jstring + summaries) \<times> drive" where
  "summarizeContent h post key path d =
     (let isFilePath = (includesChar path 0x2E \<and> \<not> endsWith path (js ''/''))
      in if isFilePath then summarizeSpecificFile post key path d
         else summarizeFolder h post key path d)"


section \<open>The audit logger\<close>

text \<open>
  A segment of the log holds the entries appended to it, one per line. The segments are
  indexed: \<open>0\<close> is the active file \<open>audit.log\<close>, \<open>i\<close> is \<open>audit.log.i\<close>. The file system
  calls are made on files the code has just found to exist, and succeed. The size of a
  segment is the sum of the bytes of its lines (\<open>lineBytes\<close> gives the length of
  \<open>JSON.stringify(entry)\<close> and its newline). \<open>Math.random\<close> and the clock are streams
  read by position; \<open>appended\<close> records the entries passed to \<open>appendFileSync\<close>.
\<close>

datatype metadata =
    CommandExecution "jstring option" "jstring option" jstring intent jstring
  | DriveOperation jstring "(jstring \<times> jstring) list" "jstring option"
  | AISummarization jstring jstring nat "jstring option"
  | ErrorMeta jstring jstring "jstring option"
  | SecurityEvent jstring "(jstring \<times> jstring) list" "jstring option"

record audit_entry =
  timestamp :: jstring
  level :: jstring
  message :: jstring
  metadata :: metadata
  sessionId :: jstring

type_synonym disk = "nat \<Rightarrow> audit_entry list option"

record logger_config =
  maxFileSize :: nat
  maxFiles :: nat

record logger_env =
  runtime :: host
  random36 :: "nat \<Rightarrow> jstring"
  isoTime :: "nat \<Rightarrow> jstring"
  lineBytes :: "audit_entry \<Rightarrow> nat"

record logger_state =
  segments :: disk
  randomCalls :: nat
  clockReads :: nat
  appended :: "audit_entry list"

text \<open>The constructor: an option that is absent or \<open>0\<close> takes the default.\<close>

definition orDefault :: "nat option \<Rightarrow> nat \<Rightarrow> nat" where
  "orDefault opt dflt = (case opt of None \<Rightarrow> dflt | Some n \<Rightarrow> if n = 0 then dflt else n)"

definition newConfig :: "nat option \<Rightarrow> nat option \<Rightarrow> logger_config" where
  "newConfig optMaxFileSize optMaxFiles =
     \<lparr>maxFileSize = orDefault optMaxFileSize (10 * 1024 * 1024),
      maxFiles = orDefault optMaxFiles 5\<rparr>"

definition existsSync :: "disk \<Rightarrow> nat \<Rightarrow> bool" where
  "existsSync fs i = (fs i \<noteq> None)"

definition statSize :: "(audit_entry \<Rightarrow> nat) \<Rightarrow> disk \<Rightarrow> nat \<Rightarrow> nat" where
  "statSize bytes fs i = (case fs i of None \<Rightarrow> 0 | Some es \<Rightarrow> sum_list (map bytes es))"

definition unlinkSync :: "disk \<Rightarrow> nat \<Rightarrow> disk" where
  "unlinkSync fs i = fs(i := None)"

definition renameSync :: "disk \<Rightarrow> nat \<Rightarrow> nat \<Rightarrow> disk" where
  "renameSync fs old new = (fs(new := fs old))(old := None)"

definition appendFileSync :: "disk \<Rightarrow> nat \<Rightarrow> audit_entry \<Rightarrow> disk" where
  "appendFileSync fs i e = fs(i \<mapsto> (case fs i of None \<Rightarrow> [] | Some es \<Rightarrow> es) @ [e])"

text \<open>The loop of \<open>rotateLogFile\<close>, from \<open>i = maxFiles - 1\<close> down to \<open>1\<close>.\<close>

fun rotateLoop :: "nat \<Rightarrow> nat \<Rightarrow> disk \<Rightarrow> disk" where
  "rotateLoop mf 0 fs = fs"
| "rotateLoop mf (Suc j) fs =
     rotateLoop mf j
       (let i = Suc j
        in if existsSync fs i
           then (if i = mf - 1 then unlinkSync fs i else renameSync fs i (i + 1))
           else fs)"

definition rotateLogFile :: "logger_config \<Rightarrow> disk \<Rightarrow> disk" where
  "rotateLogFile cfg fs =
     (let fs1 = rotateLoop (maxFiles cfg) (maxFiles cfg - 1) fs
      in if existsSync fs1 0 then renameSync fs1 0 1 else fs1)"

definition writeLogEntry ::
  "logger_env \<Rightarrow> logger_config \<Rightarrow> audit_entry \<Rightarrow> logger_state \<Rightarrow> logger_state" where
  "writeLogEntry env cfg entry st =
     (let fs = segments st;
          fs1 = (if existsSync fs 0
                 then (if statSize (lineBytes env) fs 0 > maxFileSize cfg
                       then rotateLogFile cfg fs else fs)
                 else fs)
      in st\<lparr>segments := appendFileSync fs1 0 entry, appended := appended st @ [entry]\<rparr>)"

definition getCurrentTimestamp :: "logger_env \<Rightarrow> logger_state \<Rightarrow> jstring \<times> logger_state" where
  "getCurrentTimestamp env st = (isoTime env (clockReads st), st\<lparr>clockReads := clockReads st + 1\<rparr>)"

definition generateSessionId :: "logger_env \<Rightarrow> logger_state \<Rightarrow> jstring \<times> logger_state" where
  "generateSessionId env st =
     (random36 env (randomCalls st) @ random36 env (randomCalls st + 1),
      st\<lparr>randomCalls := randomCalls st + 2\<rparr>)"

definition formatLogEntry ::
  "logger_env \<Rightarrow> jstring \<Rightarrow> jstring \<Rightarrow> metadata \<Rightarrow> logger_state \<Rightarrow> audit_entry \<times> logger_state" where
  "formatLogEntry env lvl msg meta st =
     (let (ts, st1) = getCurrentTimestamp env st;
          (sid, st2) = generateSessionId env st1
      in (\<lparr>timestamp = ts, level = toUpperCase (runtime env) lvl, message = msg, metadata = meta,
           sessionId = sid\<rparr>, st2))"

fun commandName :: "intent \<Rightarrow> jstring" where
  "commandName (LIST p n) = js ''LIST''"
| "commandName (DELETE_CONFIRM p) = js ''DELETE_CONFIRM''"
| "commandName (DELETE_REQUEST p) = js ''DELETE_REQUEST''"
| "commandName (MOVE p q) = js ''MOVE''"
| "commandName (SUMMARY p) = js ''SUMMARY''"
| "commandName HELP = js ''HELP''"
| "commandName UNKNOWN = js ''UNKNOWN''"

definition logCommand ::
  "logger_env \<Rightarrow> logger_config \<Rightarrow> jstring option \<Rightarrow> jstring option \<Rightarrow> intent \<Rightarrow> jstring
     \<Rightarrow> logger_state \<Rightarrow> jstring \<times> logger_state" where
  "logCommand env cfg messageId fromNumber parsed stamp st =
     (let (entry, st1) = formatLogEntry env (js ''info'') (js ''WhatsApp command executed'')
                           (CommandExecution messageId fromNumber (commandName parsed) parsed stamp) st
      in (sessionId entry, writeLogEntry env cfg entry st1))"

definition logDriveOperation ::
  "logger_env \<Rightarrow> logger_config \<Rightarrow> jstring \<Rightarrow> (jstring \<times> jstring) list \<Rightarrow> jstring option
     \<Rightarrow> logger_state \<Rightarrow> logger_state" where
  "logDriveOperation env cfg operation details sid st =
     (let (entry, st1) = formatLogEntry env (js ''info'')
                           (js ''Google Drive '' @ operation @ js '' operation'')
                           (DriveOperation operation details sid) st
      in writeLogEntry env cfg entry st1)"

definition logAISummarization ::
  "logger_env \<Rightarrow> logger_config \<Rightarrow> jstring \<Rightarrow> jstring \<Rightarrow> jstring \<Rightarrow> jstring option
     \<Rightarrow> logger_state \<Rightarrow> logger_state" where
  "logAISummarization env cfg fileName fileType summ sid st =
     (let (entry, st1) = formatLogEntry env (js ''info'') (js ''AI summarization completed'')
                           (AISummarization fileName fileType (length summ) sid) st
      in writeLogEntry env cfg entry st1)"

definition logError ::
  "logger_env \<Rightarrow> logger_config \<Rightarrow> jstring \<Rightarrow> jstring \<Rightarrow> jstring option
     \<Rightarrow> logger_state \<Rightarrow> logger_state" where
  "logError env cfg err ctx sid st =
     (let (entry, st1) = formatLogEntry env (js ''error'') (js ''Operation failed'')
                           (ErrorMeta err ctx sid) st
      in writeLogEntry env cfg entry st1)"

definition logSecurityEvent ::
  "logger_env \<Rightarrow> logger_config \<Rightarrow> jstring \<Rightarrow> (jstring \<times> jstring) list \<Rightarrow> jstring option
     \<Rightarrow> logger_state \<Rightarrow> logger_state" where
  "logSecurityEvent env cfg event details sid st =
     (let (entry, st1) = formatLogEntry env (js ''warn'') (js ''Security event: '' @ event)
                           (SecurityEvent event details sid) st
      in writeLogEntry env cfg entry st1)"

text \<open>The \<open>sessionId\<close> key of an entry's metadata, when it has one that is not \<open>null\<close>.\<close>

fun metadataSessionId :: "metadata \<Rightarrow> jstring option" where
  "metadataSessionId (CommandExecution mid frm cmd params stamp) = None"
| "metadataSessionId (DriveOperation operation details sid) = sid"
| "metadataSessionId (AISummarization fileName fileType n sid) = sid"
| "metadataSessionId (ErrorMeta err ctx sid) = sid"
| "metadataSessionId (SecurityEvent event details sid) = sid"


section \<open>Replies\<close>

text \<open>
  The confirmation prompt of \<open>formatWhatsAppResponse\<close> for \<open>DELETE_REQUEST\<close>, with the code
  units of its pictographs. The texts of the other commands are a parameter of the
  handler.
\<close>

definition warningSign :: jstring where
  "warningSign = [0x26A0, 0xFE0F]"

definition policeLight :: jstring where
  "policeLight = [0xD83D, 0xDEA8]"

definition lightBulb :: jstring where
  "lightBulb = [0xD83D, 0xDCA1]"

definition deleteRequestPrompt :: "jstring \<Rightarrow> jstring" where
  "deleteRequestPrompt filePath =
     warningSign @ js '' DELETE CONFIRMATION REQUIRED'' @ newline @ newline
     @ js ''File: '' @ filePath @ newline @ newline
     @ policeLight @ js '' This action cannot be undone!'' @ newline @ newline
     @ js ''To confirm deletion, send:'' @ newline
     @ js ''DELETE '' @ filePath @ js '' CONFIRM'' @ newline @ newline
     @ lightBulb @ js '' Or send any other message to cancel.''"


section \<open>The webhook handler\<close>

record request =
  reqBody :: "jstring option"
  reqFrom :: "jstring option"
  reqMessageSid :: "jstring option"

datatype cmd_result =
    ListResult "jstring + list_result"
  | DeleteRequestResult jstring
  | DeleteResult "jstring + delete_result"
  | MoveResult "jstring + move_result"
  | SummaryResult "jstring + summaries"
  | EmptyResult

datatype http_response = Ignored | Processed | Failed jstring

text \<open>
  The collaborators of the handler: the logger's streams and the host's case mappings
  (\<open>runtime\<close>), the summary service and its key, \<open>JSON.stringify\<close> on the summaries, the
  reply texts that are not modelled, and the message client, which returns the message of
  the exception it throws, if any.
\<close>

record server_env =
  logEnv :: logger_env
  geminiPost :: "gemini_request \<Rightarrow> jstring + jstring option"
  apiKey :: jstring
  stringifySummaries :: "summaries \<Rightarrow> jstring"
  formatOther :: "intent \<Rightarrow> cmd_result \<Rightarrow> jstring"
  twilioCreate :: "jstring option \<Rightarrow> jstring \<Rightarrow> jstring option"

record server_state =
  driveState :: drive
  logState :: logger_state
  sent :: "(jstring option \<times> jstring) list"

definition hostOf :: "server_env \<Rightarrow> host" where
  "hostOf env = runtime (logEnv env)"

definition formatWhatsAppResponse :: "server_env \<Rightarrow> intent \<Rightarrow> cmd_result \<Rightarrow> jstring" where
  "formatWhatsAppResponse env parsed res =
     (case parsed of
        DELETE_REQUEST filePath \<Rightarrow> deleteRequestPrompt filePath
      | _ \<Rightarrow> formatOther env parsed res)"

text \<open>The \<open>switch\<close> of the handler: the operation, then the audit event of the branch.\<close>

fun executeCommand ::
  "server_env \<Rightarrow> logger_config \<Rightarrow> intent \<Rightarrow> jstring \<Rightarrow> drive \<Rightarrow> logger_state
     \<Rightarrow> cmd_result \<times> drive \<times> logger_state" where
  "executeCommand env cfg (LIST folderPath pg) sid d lg =
     (let (r, d1) = listFiles (hostOf env) folderPath pg d
      in (ListResult r, d1,
          logDriveOperation (logEnv env) cfg (js ''list'') [(js ''folderPath'', folderPath)]
            (Some sid) lg))"
| "executeCommand env cfg (DELETE_REQUEST filePath) sid d lg =
     (DeleteRequestResult filePath, d,
      logSecurityEvent (logEnv env) cfg (js ''delete_request'') [(js ''filePath'', filePath)]
        (Some sid) lg)"
| "executeCommand env cfg (DELETE_CONFIRM filePath) sid d lg =
     (let (r, d1) = deleteFile (hostOf env) filePath d
      in (DeleteResult r, d1,
          logDriveOperation (logEnv env) cfg (js ''delete'') [(js ''filePath'', filePath)]
            (Some sid) lg))"
| "executeCommand env cfg (MOVE sourcePath destinationPath) sid d lg =
     (let (r, d1) = moveFile (hostOf env) sourcePath destinationPath d
      in (MoveResult r, d1,
          logDriveOperation (logEnv env) cfg (js ''move'')
            [(js ''sourcePath'', sourcePath), (js ''destinationPath'', destinationPath)]
            (Some sid) lg))"
| "executeCommand env cfg (SUMMARY folderPath) sid d lg =
     (let (r, d1) = summarizeContent (hostOf env) (geminiPost env) (apiKey env) folderPath d
      in (SummaryResult r, d1,
          logAISummarization (logEnv env) cfg (js ''folder'') (js ''folder'')
            (case r of Inr summ \<Rightarrow> stringifySummaries env summ | Inl err \<Rightarrow> js ''error'')
            (Some sid) lg))"
| "executeCommand env cfg HELP sid d lg = (EmptyResult, d, lg)"
| "executeCommand env cfg UNKNOWN sid d lg = (EmptyResult, d, lg)"

text \<open>
  The handler of \<open>POST /whatsapp-webhook\<close>. A body that is absent or empty is ignored.
  An exception of \<open>parseCommand\<close> would reach the outer \<open>catch\<close>, which logs the error
  with a \<open>null\<close> session and answers 500. The time stamp of the command data is one more
  read of the clock. An exception of the message client is logged and the request still
  succeeds.
\<close>

definition webhook ::
  "server_env \<Rightarrow> logger_config \<Rightarrow> request \<Rightarrow> server_state \<Rightarrow> http_response \<times> server_state" where
  "webhook env cfg req sv =
     (case reqBody req of
        None \<Rightarrow> (Ignored, sv)
      | Some messageBody \<Rightarrow>
          if messageBody = [] then (Ignored, sv)
          else
            (case parseCommand (hostOf env) messageBody of
               Inl err \<Rightarrow>
                 (Failed (js ''TypeError''),
                  sv\<lparr>logState := logError (logEnv env) cfg (js ''TypeError'')
                                    (js ''webhook_processing'') None (logState sv)\<rparr>)
             | Inr parsed \<Rightarrow>
                 (let (stamp, lg0) = getCurrentTimestamp (logEnv env) (logState sv);
                      (sid, lg1) = logCommand (logEnv env) cfg (reqMessageSid req) (reqFrom req)
                                     parsed stamp lg0;
                      (res, d1, lg2) = executeCommand env cfg parsed sid (driveState sv) lg1;
                      responseMessage = formatWhatsAppResponse env parsed res
                  in case twilioCreate env (reqFrom req) responseMessage of
                       Some err \<Rightarrow>
                         (Processed,
                          \<lparr>driveState = d1,
                           logState = logError (logEnv env) cfg err (js ''whatsapp_send'')
                                        (Some sid) lg2,
                           sent = sent sv\<rparr>)
                     | None \<Rightarrow>
                         (Processed,
                          \<lparr>driveState = d1, logState = lg2,
                           sent = sent sv @ [(reqFrom req, responseMessage)]\<rparr>))))"


section \<open>Notions the properties are stated with\<close>

text \<open>
  Resolution as the specification words it: the entries of the kind with exactly this
  name, else the first entry of the kind whose name matches without regard to case, in
  the order of the store.
\<close>

definition resolveEntry ::
  "host \<Rightarrow> q_atom list \<Rightarrow> jstring \<Rightarrow> drive_file list \<Rightarrow> drive_file option" where
  "resolveEntry h kind nm fs =
     (case answer (NameEq nm # kind) False fs of
        f # _ \<Rightarrow> Some f
      | [] \<Rightarrow> find (sameNameCI h nm) (answer kind False fs))"

definition resolveQueries :: "q_atom list \<Rightarrow> jstring \<Rightarrow> drive_file list \<Rightarrow> api_call list" where
  "resolveQueries kind nm fs =
     (if answer (NameEq nm # kind) False fs = []
      then [FilesList (NameEq nm # kind) False, FilesList kind False]
      else [FilesList (NameEq nm # kind) False])"

definition folderIdOf :: "host \<Rightarrow> jstring \<Rightarrow> drive_file list \<Rightarrow> jstring option" where
  "folderIdOf h folderPath fs =
     (if folderPath = js ''/'' \<or> folderPath = js ''ROOT'' then Some (js ''root'')
      else map_option fileId (resolveEntry h [MimeEq folderMime] folderPath fs))"

definition folderQueries :: "jstring \<Rightarrow> drive_file list \<Rightarrow> api_call list" where
  "folderQueries folderPath fs =
     (if folderPath = js ''/'' \<or> folderPath = js ''ROOT'' then []
      else resolveQueries [MimeEq folderMime] folderPath fs)"

definition children :: "jstring \<Rightarrow> drive_file list \<Rightarrow> drive_file list" where
  "children folderId fs =
     sort_key name (filter (\<lambda>f. folderId \<in> set (parents f) \<and> \<not> trashed f) fs)"

fun isDeleteCall :: "api_call \<Rightarrow> bool" where
  "isDeleteCall (FilesDelete i) = True"
| "isDeleteCall (FilesList q b) = False"
| "isDeleteCall (FilesUpdate i a r) = False"
| "isDeleteCall (FilesGet i) = False"

text \<open>The calls made and the entries written by the handler for one request.\<close>

definition newCalls :: "server_env \<Rightarrow> logger_config \<Rightarrow> request \<Rightarrow> server_state \<Rightarrow> api_call list" where
  "newCalls env cfg req sv =
     drop (length (calls (driveState sv))) (calls (driveState (snd (webhook env cfg req sv))))"

definition written :: "server_env \<Rightarrow> logger_config \<Rightarrow> request \<Rightarrow> server_state \<Rightarrow> audit_entry list" where
  "written env cfg req sv =
     drop (length (appended (logState sv))) (appended (logState (snd (webhook env cfg req sv))))"

definition freshServer :: "drive_file list \<Rightarrow> server_state" where
  "freshServer fs =
     \<lparr>driveState = \<lparr>store = fs, calls = [], faults = []\<rparr>,
      logState = \<lparr>segments = (\<lambda>i. None), randomCalls = 0, clockReads = 0, appended = []\<rparr>,
      sent = []\<rparr>"

text \<open>One audit call: one entry, with a fresh identifier and the given session in its metadata.\<close>

definition logged :: "logger_env \<Rightarrow> jstring option \<Rightarrow> logger_state \<Rightarrow> logger_state \<Rightarrow> bool" where
  "logged env sid st st' =
     (\<exists>e. appended st' = appended st @ [e] \<and> metadataSessionId (metadata e) = sid \<and>
          sessionId e = random36 env (randomCalls st) @ random36 env (randomCalls st + 1) \<and>
          randomCalls st' = randomCalls st + 2)"


section \<open>A small store and its surroundings, for concrete runs\<close>

text \<open>
  The runs below are on ASCII text only, where the case mappings of every host shift the
  26 letters and leave the other code units alone.
\<close>

definition upperUnit :: "nat \<Rightarrow> nat" where
  "upperUnit c = (if 97 \<le> c \<and> c \<le> 122 then c - 32 else c)"

definition lowerUnit :: "nat \<Rightarrow> nat" where
  "lowerUnit c = (if 65 \<le> c \<and> c \<le> 90 then c + 32 else c)"

definition asciiHost :: host where
  "asciiHost = \<lparr>toUpperCase = map upperUnit, toLowerCase = map lowerUnit\<rparr>"

definition reportFile :: drive_file where
  "reportFile = \<lparr>fileId = js ''id-report'', name = js ''Report.pdf'',
     mimeType = js ''application/pdf'', trashed = False,
     parents = [js ''root'', js ''id-shared''], content = js ''quarterly figures''\<rparr>"

definition archiveFolder :: drive_file where
  "archiveFolder = \<lparr>fileId = js ''id-archive'', name = js ''Archive'', mimeType = folderMime,
     trashed = False, parents = [js ''root''], content = []\<rparr>"

definition notesFile :: drive_file where
  "notesFile = \<lparr>fileId = js ''id-notes'', name = js ''notes.txt'', mimeType = js ''text/plain'',
     trashed = False, parents = [js ''root''], content = js ''to do''\<rparr>"

definition exampleFiles :: "drive_file list" where
  "exampleFiles = [reportFile, archiveFolder, notesFile]"

definition exampleDrive :: drive where
  "exampleDrive = \<lparr>store = exampleFiles, calls = [], faults = []\<rparr>"

definition exampleLogEnv :: logger_env where
  "exampleLogEnv =
     \<lparr>runtime = asciiHost,
      random36 = (\<lambda>n. if n < 6 then map js [''q1w2e3'', ''r4t5y6'', ''u7i8o9'', ''p0a1s2'', ''d3f4g5'', ''h6j7k8''] ! n
                       else js ''z9x8c7''),
      isoTime = (\<lambda>n. js ''2024-05-01T10:00:00.000Z''),
      lineBytes = (\<lambda>e. 150)\<rparr>"

definition exampleEnv :: server_env where
  "exampleEnv =
     \<lparr>logEnv = exampleLogEnv,
      geminiPost = (\<lambda>r. Inr None),
      apiKey = js ''key'',
      stringifySummaries = (\<lambda>s. js ''[]''),
      formatOther = (\<lambda>i r. js ''ok''),
      twilioCreate = (\<lambda>t b. None)\<rparr>"

definition exampleRequest :: "string \<Rightarrow> request" where
  "exampleRequest b =
     \<lparr>reqBody = Some (js b), reqFrom = Some (js ''whatsapp:+15550100''),
      reqMessageSid = Some (js ''SM01'')\<rparr>"

definition exampleEntry :: "string \<Rightarrow> audit_entry" where
  "exampleEntry sid =
     \<lparr>timestamp = js ''2024-05-01T09:00:00.000Z'', level = js ''INFO'',
      message = js ''Google Drive list operation'',
      metadata = DriveOperation (js ''list'') [(js ''folderPath'', js ''/'')] None,
      sessionId = js sid\<rparr>"

definition exampleDisk :: disk where
  "exampleDisk =
     (\<lambda>i. if i = 0 then Some [exampleEntry ''a0'']
          else if i = 3 then Some [exampleEntry ''a3'']
          else if i = 4 then Some [exampleEntry ''a4'']
          else None)"

definition exampleLogger :: logger_state where
  "exampleLogger = \<lparr>segments = exampleDisk, randomCalls = 0, clockReads = 0, appended = []\<rparr>"

text \<open>
  One run is on a name with the letter U+00DF, which the language's upper-casing writes
  as \<open>SS\<close>; \<open>latinHost\<close> does so, and agrees with \<open>asciiHost\<close> elsewhere.
\<close>

definition upperExpand :: "nat \<Rightarrow> jstring" where
  "upperExpand c = (if c = 0xDF then [0x53, 0x53] else [upperUnit c])"

definition latinHost :: host where
  "latinHost = \<lparr>toUpperCase = (\<lambda>s. concat (map upperExpand s)), toLowerCase = map lowerUnit\<rparr>"

definition streetFile :: drive_file where
  "streetFile = \<lparr>fileId = js ''id-street'', name = js ''stra'' @ [0xDF] @ js ''e.pdf'',
     mimeType = js ''application/pdf'', trashed = False, parents = [js ''root''], content = []\<rparr>"

definition streetDrive :: drive where
  "streetDrive = \<lparr>store = [streetFile], calls = [], faults = []\<rparr>"


section \<open>The matcher and the grammar\<close>

lemma firstSome_SomeD: "firstSome f xs = Some y \<Longrightarrow> \<exists>x\<in>set xs. f x = Some y"
  by (induction xs) (auto split: option.splits)

lemma firstSome_hit:
  "f x = Some y \<Longrightarrow> firstSome f (x # xs) = Some y"
  by simp

lemma firstSome_skip:
  "\<forall>x\<in>set xs. f x = None \<Longrightarrow> firstSome f (xs @ ys) = firstSome f ys"
  by (induction xs) auto

lemma candidates_set: "n \<in> set (candidates q m) \<longleftrightarrow> 1 \<le> n \<and> n \<le> m"
  by (cases q) auto

lemma rx_match_LitD:
  "rx_match (Lit l # r) s = Some caps \<Longrightarrow> take (length l) s = l \<and> rx_match r (drop (length l) s) = Some caps"
  by (simp split: if_splits)

lemma rx_match_PlusD:
  "rx_match (Plus k q # r) s = Some caps \<Longrightarrow>
     \<exists>n. 1 \<le> n \<and> n \<le> run k s \<and> rx_match r (drop n s) = Some caps"
  by (auto dest!: firstSome_SomeD simp: candidates_set)

lemma rx_match_CaptureD:
  "rx_match (Capture k q # r) s = Some caps \<Longrightarrow>
     \<exists>n caps'. 1 \<le> n \<and> n \<le> run k s \<and> rx_match r (drop n s) = Some caps' \<and> caps = take n s # caps'"
  by (auto dest!: firstSome_SomeD simp: candidates_set)

lemma rx_match_length:
  "rx_match r s = Some caps \<Longrightarrow> length caps = length (filter isCapture r)"
proof (induction r arbitrary: s caps)
  case Nil
  then show ?case by (simp split: if_splits)
next
  case (Cons a r)
  show ?case
  proof (cases a)
    case (Lit l)
    with Cons.prems have "rx_match (Lit l # r) s = Some caps" by simp
    from rx_match_LitD[OF this] Cons.IH Lit show ?thesis by auto
  next
    case (Plus k q)
    with Cons.prems have "rx_match (Plus k q # r) s = Some caps" by simp
    from rx_match_PlusD[OF this] Cons.IH Plus show ?thesis by auto
  next
    case (Capture k q)
    with Cons.prems have "rx_match (Capture k q # r) s = Some caps" by simp
    from rx_match_CaptureD[OF this] Cons.IH Capture show ?thesis by auto
  qed
qed

lemma rx_match_sublist:
  "rx_match r s = Some caps \<Longrightarrow> c \<in> set caps \<Longrightarrow> sublist c s"
proof (induction r arbitrary: s caps)
  case Nil
  then show ?case by (simp split: if_splits)
next
  case (Cons a r)
  show ?case
  proof (cases a)
    case (Lit l)
    with Cons.prems have "rx_match (Lit l # r) s = Some caps" by simp
    from rx_match_LitD[OF this] have "rx_match r (drop (length l) s) = Some caps" by simp
    from Cons.IH[OF this Cons.prems(2)] show ?thesis
      by (rule sublist_order.order.trans) simp
  next
    case (Plus k q)
    with Cons.prems have "rx_match (Plus k q # r) s = Some caps" by simp
    from rx_match_PlusD[OF this] obtain n where "rx_match r (drop n s) = Some caps"
      by blast
    from Cons.IH[OF this Cons.prems(2)] show ?thesis
      by (rule sublist_order.order.trans) simp
  next
    case (Capture k q)
    with Cons.prems have "rx_match (Capture k q # r) s = Some caps" by simp
    from rx_match_CaptureD[OF this] obtain n caps'
      where n: "rx_match r (drop n s) = Some caps'" "caps = take n s # caps'"
      by blast
    show ?thesis
    proof (cases "c = take n s")
      case True
      then show ?thesis by simp
    next
      case False
      with n Cons.prems(2) have "c \<in> set caps'" by simp
      from Cons.IH[OF n(1) this] show ?thesis
        by (rule sublist_order.order.trans) simp
    qed
  qed
qed

lemma length1E: "length xs = Suc 0 \<Longrightarrow> \<exists>a. xs = [a]"
  by (cases xs) auto

lemma length2E: "length xs = Suc (Suc 0) \<Longrightarrow> \<exists>a b. xs = [a, b]"
  by (cases xs; cases "tl xs") auto

lemma caps2:
  "length (filter isCapture p) = 2 \<Longrightarrow> rx_test p b \<Longrightarrow> \<exists>x y. rx_match p b = Some [x, y]"
proof -
  assume l: "length (filter isCapture p) = 2" and "rx_test p b"
  then obtain caps where c: "rx_match p b = Some caps" by (auto simp: rx_test_def)
  from rx_match_length[OF c] l have "length caps = Suc (Suc 0)" by simp
  from length2E[OF this] c show ?thesis by auto
qed

lemma caps1:
  "length (filter isCapture p) = 1 \<Longrightarrow> rx_test p b \<Longrightarrow> \<exists>x. rx_match p b = Some [x]"
proof -
  assume l: "length (filter isCapture p) = 1" and "rx_test p b"
  then obtain caps where c: "rx_match p b = Some caps" by (auto simp: rx_test_def)
  from rx_match_length[OF c] l have "length caps = Suc 0" by simp
  from length1E[OF this] c show ?thesis by auto
qed

lemma parseCommand_no_error: "\<exists>i. parseCommand h m = Inr i"
proof -
  let ?b = "toUpperCase h (trim m)"
  have lp: "rx_test listPagePattern ?b \<Longrightarrow> \<exists>x y. rx_match listPagePattern ?b = Some [x, y]"
    by (rule caps2) (simp add: listPagePattern_def)
  have mv: "rx_test movePattern ?b \<Longrightarrow> \<exists>x y. rx_match movePattern ?b = Some [x, y]"
    by (rule caps2) (simp add: movePattern_def)
  have l: "rx_test listPattern ?b \<Longrightarrow> \<exists>x. rx_match listPattern ?b = Some [x]"
    by (rule caps1) (simp add: listPattern_def)
  have dc: "rx_test deleteConfirmPattern ?b \<Longrightarrow> \<exists>x. rx_match deleteConfirmPattern ?b = Some [x]"
    by (rule caps1) (simp add: deleteConfirmPattern_def)
  have d: "rx_test deletePattern ?b \<Longrightarrow> \<exists>x. rx_match deletePattern ?b = Some [x]"
    by (rule caps1) (simp add: deletePattern_def)
  have sm: "rx_test summaryPattern ?b \<Longrightarrow> \<exists>x. rx_match summaryPattern ?b = Some [x]"
    by (rule caps1) (simp add: summaryPattern_def)
  show ?thesis
    unfolding parseCommand_def Let_def
    using lp mv l dc d sm by fastforce
qed

lemma parseCommand_cases:
  fixes h :: host and m :: jstring
  defines "b \<equiv> toUpperCase h (trim m)"
  obtains
    (page) p n where "rx_match listPagePattern b = Some [p, n]"
        and "parseCommand h m = Inr (LIST p (parseInt n))"
  | (list) p where "\<not> rx_test listPagePattern b" and "rx_match listPattern b = Some [p]"
        and "parseCommand h m = Inr (LIST p (Num 1))"
  | (confirm) p where "rx_match deleteConfirmPattern b = Some [p]"
        and "parseCommand h m = Inr (DELETE_CONFIRM p)"
  | (delete) p where "rx_match deletePattern b = Some [p]"
        and "parseCommand h m = Inr (DELETE_REQUEST p)"
  | (move) p q where "rx_match movePattern b = Some [p, q]"
        and "parseCommand h m = Inr (MOVE p q)"
  | (summary) p where "rx_match summaryPattern b = Some [p]"
        and "parseCommand h m = Inr (SUMMARY (summaryPath p))"
  | (hlp) "rx_test helpPattern b" and "parseCommand h m = Inr HELP"
  | (unknown) "\<forall>p\<in>set commandPatterns. \<not> rx_test p b" and "parseCommand h m = Inr UNKNOWN"
proof (cases "rx_test listPagePattern b")
  case True
  have "\<exists>x y. rx_match listPagePattern b = Some [x, y]"
    by (rule caps2[OF _ True]) (simp add: listPagePattern_def)
  with True page show ?thesis
    by (auto simp: parseCommand_def b_def)
next
  case n1: False
  show ?thesis
  proof (cases "rx_test listPattern b")
    case True
    have "\<exists>x. rx_match listPattern b = Some [x]"
      by (rule caps1[OF _ True]) (simp add: listPattern_def)
    with True n1 list show ?thesis
      by (auto simp: parseCommand_def b_def)
  next
    case n2: False
    show ?thesis
    proof (cases "rx_test deleteConfirmPattern b")
      case True
      have "\<exists>x. rx_match deleteConfirmPattern b = Some [x]"
        by (rule caps1[OF _ True]) (simp add: deleteConfirmPattern_def)
      with True n1 n2 confirm show ?thesis
        by (auto simp: parseCommand_def b_def)
    next
      case n3: False
      show ?thesis
      proof (cases "rx_test deletePattern b")
        case True
        have "\<exists>x. rx_match deletePattern b = Some [x]"
          by (rule caps1[OF _ True]) (simp add: deletePattern_def)
        with True n1 n2 n3 delete show ?thesis
          by (auto simp: parseCommand_def b_def)
      next
        case n4: False
        show ?thesis
        proof (cases "rx_test movePattern b")
          case True
          have "\<exists>x y. rx_match movePattern b = Some [x, y]"
            by (rule caps2[OF _ True]) (simp add: movePattern_def)
          with True n1 n2 n3 n4 move show ?thesis
            by (auto simp: parseCommand_def b_def)
        next
          case n5: False
          show ?thesis
          proof (cases "rx_test summaryPattern b")
            case True
            have "\<exists>x. rx_match summaryPattern b = Some [x]"
              by (rule caps1[OF _ True]) (simp add: summaryPattern_def)
            with True n1 n2 n3 n4 n5 summary show ?thesis
              by (auto simp: parseCommand_def b_def)
          next
            case n6: False
            show ?thesis
            proof (cases "rx_test helpPattern b")
              case True
              with n1 n2 n3 n4 n5 n6 hlp show ?thesis
                by (auto simp: parseCommand_def b_def)
            next
              case False
              with n1 n2 n3 n4 n5 n6 unknown show ?thesis
                by (auto simp: parseCommand_def b_def commandPatterns_def)
            qed
          qed
        qed
      qed
    qed
  qed
qed

lemma parseCommand_UNKNOWN_iff:
  "(parseCommand h m = Inr UNKNOWN) = (\<forall>p\<in>set commandPatterns. \<not> rx_test p (toUpperCase h (trim m)))"
  by (cases rule: parseCommand_cases[of h m]) (auto simp: commandPatterns_def rx_test_def)

text \<open>
  Claim C9. The grammar is total: for every message text \<open>parseCommand\<close> returns an
  intent and never the error branch, and the intent is \<open>UNKNOWN\<close> exactly when none of
  the seven patterns matches the trimmed, upper-cased text.
\<close>

theorem parseCommand_total:
  "(\<exists>i. parseCommand h m = Inr i) \<and>
   ((parseCommand h m = Inr UNKNOWN) = (\<forall>p\<in>set commandPatterns. \<not> rx_test p (toUpperCase h (trim m))))"
  using parseCommand_no_error parseCommand_UNKNOWN_iff by blast

theorem parseCommand_total_witness:
  "list_all (\<lambda>p. \<not> rx_test p (toUpperCase asciiHost (trim (js ''what is this?'')))) commandPatterns \<and>
   parseCommand asciiHost (js ''what is this?'') = Inr UNKNOWN"
proof -
  have h: "list_all (\<lambda>p. \<not> rx_test p (toUpperCase asciiHost (trim (js ''what is this?'')))) commandPatterns"
    by (simp add: commandPatterns_def listPagePattern_def listPattern_def deleteConfirmPattern_def deletePattern_def movePattern_def summaryPattern_def helpPattern_def rx_test_def js_def asciiHost_def upperUnit_def trim_def isSpace_def isLineTerminator_def run_def)
  then have "\<forall>p\<in>set commandPatterns. \<not> rx_test p (toUpperCase asciiHost (trim (js ''what is this?'')))"
    by (simp add: list_all_iff)
  with parseCommand_total[of asciiHost "js ''what is this?''"] h show ?thesis by blast
qed

lemma sublist_trans: "sublist a b \<Longrightarrow> sublist b c \<Longrightarrow> sublist a (c :: 'a list)"
  by (rule sublist_order.order.trans)

lemma sublist_trim: "sublist (trim s) s"
proof -
  have "sublist (dropWhile isSpace (rev (dropWhile isSpace s))) (rev (dropWhile isSpace s))"
    by simp
  then have "sublist (trim s) (dropWhile isSpace s)"
    by (simp add: trim_def sublist_rev_left)
  then show ?thesis
    by (rule sublist_trans) simp
qed

lemma sublist_summaryPath: "sublist (summaryPath g) g"
proof -
  have "sublist (trim (drop 1 (trim g))) (drop 1 (trim g))"
    by (rule sublist_trim)
  then have "sublist (trim (drop 1 (trim g))) (trim g)"
    by (rule sublist_trans) (rule sublist_drop)
  then have a: "sublist (trim (drop 1 (trim g))) g"
    by (rule sublist_trans) (rule sublist_trim)
  show ?thesis
    unfolding summaryPath_def Let_def
    using a sublist_trim[of g] by (simp del: One_nat_def)
qed

lemma parseCommand_paths_sublist:
  assumes "parseCommand h m = Inr i" and "p \<in> set (intentPaths i)"
  shows "sublist p (toUpperCase h (trim m))"
proof (cases rule: parseCommand_cases[of h m])
  case (page x n)
  with assms have "p \<in> set [x, n]" by auto
  with page(1) show ?thesis by (rule rx_match_sublist)
next
  case (list x)
  with assms have "p \<in> set [x]" by auto
  with list(2) show ?thesis by (rule rx_match_sublist)
next
  case (confirm x)
  with assms have "p \<in> set [x]" by auto
  with confirm(1) show ?thesis by (rule rx_match_sublist)
next
  case (delete x)
  with assms have "p \<in> set [x]" by auto
  with delete(1) show ?thesis by (rule rx_match_sublist)
next
  case (move x y)
  with assms have "p \<in> set [x, y]" by auto
  with move(1) show ?thesis by (rule rx_match_sublist)
next
  case (summary x)
  with assms have p: "p = summaryPath x" by auto
  have "sublist x (toUpperCase h (trim m))"
    by (rule rx_match_sublist[OF summary(1)]) simp
  with sublist_summaryPath[of x] show ?thesis
    unfolding p by (rule sublist_trans)
next
  case hlp
  with assms show ?thesis by auto
next
  case unknown
  with assms show ?thesis by auto
qed

lemma run_Nil [simp]: "run k [] = 0"
  by (simp add: run_def)

lemma run_Cons: "run k (c # s) = (if inClass k c then Suc (run k s) else 0)"
  by (simp add: run_def)

lemma run_all: "\<forall>c\<in>set s. inClass k c \<Longrightarrow> run k (s @ t) = length s + run k t"
  by (induction s) (auto simp: run_Cons)

lemma run_le_length: "run k s \<le> length s"
  by (simp add: run_def length_takeWhile_le)

lemma run_take: "n \<le> run k s \<Longrightarrow> c \<in> set (take n s) \<Longrightarrow> inClass k c"
proof -
  assume n: "n \<le> run k s" and c: "c \<in> set (take n s)"
  have "take n s = take n (takeWhile (inClass k) s @ dropWhile (inClass k) s)" by simp
  also have "\<dots> = take n (takeWhile (inClass k) s)"
    using n unfolding run_def by (simp del: takeWhile_dropWhile_id)
  finally have "set (take n s) \<subseteq> set (takeWhile (inClass k) s)"
    by (metis set_take_subset)
  with c show ?thesis by (auto dest: set_takeWhileD)
qed

lemma run_block:
  assumes "\<forall>c\<in>set w. inClass k c" and "t \<noteq> []" and "\<not> inClass k (hd t)"
  shows "run k (w @ t) = length w"
proof -
  from assms(2,3) have "run k t = 0" by (cases t) (auto simp: run_Cons)
  with run_all[OF assms(1), of t] show ?thesis by simp
qed

lemma lineTerminator_isSpace: "isLineTerminator c \<Longrightarrow> isSpace c"
  by (simp add: isSpace_def)

lemma digit_not_space: "isDigit c \<Longrightarrow> \<not> isSpace c"
  by (auto simp: isDigit_def isSpace_def isLineTerminator_def)

lemma plus_greedy_full:
  assumes "1 \<le> run k s" and "rx_match r (drop (run k s) s) = Some caps"
  shows "rx_match (Plus k Greedy # r) s = Some caps"
proof -
  from assms(1) obtain j where j: "run k s = Suc j" by (cases "run k s") auto
  have "candidates Greedy (run k s) = run k s # rev [1..<Suc j]"
    by (simp add: j)
  with assms(2) show ?thesis by simp
qed

lemma capture_greedy_full:
  assumes "1 \<le> run k s" and "rx_match r (drop (run k s) s) = Some caps"
  shows "rx_match (Capture k Greedy # r) s = Some (take (run k s) s # caps)"
proof -
  from assms(1) obtain j where j: "run k s = Suc j" by (cases "run k s") auto
  have "candidates Greedy (run k s) = run k s # rev [1..<Suc j]"
    by (simp add: j)
  with assms(2) show ?thesis by simp
qed

lemma capture_lazy_at:
  assumes "1 \<le> n" and "n \<le> run k s"
    and "\<forall>j. 1 \<le> j \<and> j < n \<longrightarrow> rx_match r (drop j s) = None"
    and "rx_match r (drop n s) = Some caps"
  shows "rx_match (Capture k Lazy # r) s = Some (take n s # caps)"
proof -
  let ?f = "\<lambda>n. map_option ((#) (take n s)) (rx_match r (drop n s))"
  have split: "[1..<Suc (run k s)] = [1..<n] @ n # [Suc n..<Suc (run k s)]"
  proof -
    have "[1..<Suc (run k s)] = [1..<n] @ [n..<Suc (run k s)]"
      using assms(1,2) upt_add_eq_append[of 1 n "Suc (run k s) - n"] by simp
    moreover have "[n..<Suc (run k s)] = n # [Suc n..<Suc (run k s)]"
      using assms(2) by (simp add: upt_conv_Cons)
    ultimately show ?thesis by simp
  qed
  have "rx_match (Capture k Lazy # r) s = firstSome ?f [1..<Suc (run k s)]"
    by (simp del: upt_Suc)
  also have "\<dots> = firstSome ?f ([1..<n] @ n # [Suc n..<Suc (run k s)])"
    by (simp only: split)
  also have "\<dots> = firstSome ?f (n # [Suc n..<Suc (run k s)])"
    using assms(3) by (intro firstSome_skip) auto
  also have "\<dots> = Some (take n s # caps)" using assms(4) by simp
  finally show ?thesis .
qed

lemma rx_match_LitE:
  assumes "rx_match (Lit l # r) s = Some caps"
  obtains v where "s = l @ v" and "rx_match r v = Some caps"
proof -
  from rx_match_LitD[OF assms]
  have t: "take (length l) s = l" and m: "rx_match r (drop (length l) s) = Some caps"
    by simp_all
  have "s = take (length l) s @ drop (length l) s" by simp
  with t have "s = l @ drop (length l) s" by simp
  with m that show ?thesis by blast
qed

lemma rx_match_PlusE:
  assumes "rx_match (Plus k q # r) s = Some caps"
  obtains u v where "s = u @ v" and "u \<noteq> []" and "\<forall>c\<in>set u. inClass k c"
    and "rx_match r v = Some caps"
proof -
  from rx_match_PlusD[OF assms] obtain n
    where n: "1 \<le> n" "n \<le> run k s" "rx_match r (drop n s) = Some caps"
    by blast
  have a: "s = take n s @ drop n s" by simp
  from n run_le_length[of k s] have b: "take n s \<noteq> []" by (cases s) auto
  have c: "\<forall>c\<in>set (take n s). inClass k c" using run_take[OF n(2)] by blast
  from that[OF a b c n(3)] show ?thesis .
qed

lemma rx_match_CaptureE:
  assumes "rx_match (Capture k q # r) s = Some caps"
  obtains u v caps' where "s = u @ v" and "u \<noteq> []" and "\<forall>c\<in>set u. inClass k c"
    and "rx_match r v = Some caps'" and "caps = u # caps'"
proof -
  from rx_match_CaptureD[OF assms] obtain n caps'
    where n: "1 \<le> n" "n \<le> run k s" "rx_match r (drop n s) = Some caps'"
      "caps = take n s # caps'"
    by blast
  have a: "s = take n s @ drop n s" by simp
  from n run_le_length[of k s] have b: "take n s \<noteq> []" by (cases s) auto
  have c: "\<forall>c\<in>set (take n s). inClass k c" using run_take[OF n(2)] by blast
  from that[OF a b c n(3,4)] show ?thesis .
qed

declare rx_match.simps [simp del]

lemma rx_match_Nil: "rx_match [] s = (if s = [] then Some [] else None)"
  by (simp add: rx_match.simps)

lemma rx_match_Lit: "rx_match (Lit l # r) (l @ s) = rx_match r s"
  by (simp add: rx_match.simps)

lemma rx_match_Lit_mismatch:
  "l \<noteq> [] \<Longrightarrow> s \<noteq> [] \<Longrightarrow> hd s \<noteq> hd l \<Longrightarrow> rx_match (Lit l # r) s = None"
  by (cases l; cases s) (auto simp: rx_match.simps)

lemma tail_block_unique:
  assumes eq: "A @ u = B @ v"
    and u: "\<forall>c\<in>set u. Q c" and v: "\<forall>c\<in>set v. Q c"
    and A: "A \<noteq> [] \<longrightarrow> \<not> Q (last A)" and B: "B \<noteq> [] \<longrightarrow> \<not> Q (last B)"
  shows "A = B \<and> u = v"
proof -
  from eq obtain us where "(A = B @ us \<and> us @ u = v) \<or> (A @ us = B \<and> u = us @ v)"
    unfolding append_eq_append_conv2 by blast
  then show ?thesis
  proof
    assume h: "A = B @ us \<and> us @ u = v"
    have "us = []"
    proof (rule ccontr)
      assume ne: "us \<noteq> []"
      with h have "last A = last us" and "A \<noteq> []" by simp_all
      moreover from ne h have "last us \<in> set v" by auto
      ultimately show False using A v by auto
    qed
    with h show ?thesis by simp
  next
    assume h: "A @ us = B \<and> u = us @ v"
    have "us = []"
    proof (rule ccontr)
      assume ne: "us \<noteq> []"
      with h have "last B = last us" and "B \<noteq> []" by auto
      moreover from ne h have "last us \<in> set u" by auto
      ultimately show False using B u by auto
    qed
    with h show ?thesis by simp
  qed
qed

text \<open>Facts on the literals of the grammar.\<close>

lemma length_js [simp]: "length (js s) = length s"
  by (simp add: js_def)

lemma js_PAGE: "js ''PAGE'' \<noteq> []" "\<not> isSpace (hd (js ''PAGE''))" "\<not> isSpace (last (js ''PAGE''))"
  "\<forall>c\<in>set (js ''PAGE''). \<not> isLineTerminator c"
  by (simp_all add: js_def isSpace_def isLineTerminator_def)


lemma spaces_hd_last:
  assumes "w \<noteq> []" and "\<forall>c\<in>set w. isSpace c"
  shows "isSpace (hd w)" and "isSpace (last w)"
  using assms hd_in_set[of w] last_in_set[of w] by blast+

lemma page_tail_match:
  assumes w2: "w2 \<noteq> []" "\<forall>c\<in>set w2. isSpace c"
    and w3: "w3 \<noteq> []" "\<forall>c\<in>set w3. isSpace c"
    and T: "T \<noteq> []" "\<forall>c\<in>set T. isDigit c"
  shows "rx_match [Plus Space Greedy, Lit (js ''PAGE''), Plus Space Greedy, Capture Digit Greedy]
           (w2 @ js ''PAGE'' @ w3 @ T) = Some [T]"
proof -
  from T have hd: "\<not> isSpace (hd T)" by (cases T) (auto dest: digit_not_space)
  have r: "run Digit T = length T" using run_all[of T Digit "[]"] T(2) by simp
  have "rx_match [Capture Digit Greedy] T = Some [take (run Digit T) T]"
    by (rule capture_greedy_full) (use T r in \<open>auto simp: Suc_le_eq rx_match_Nil\<close>)
  then have d: "rx_match [Capture Digit Greedy] T = Some [T]" by (simp add: r)
  have r3: "run Space (w3 @ T) = length w3"
    by (rule run_block) (use w3 T hd in auto)
  have "rx_match [Plus Space Greedy, Capture Digit Greedy] (w3 @ T) = Some [T]"
    by (rule plus_greedy_full) (use w3 r3 d in \<open>auto simp: Suc_le_eq\<close>)
  then have l: "rx_match [Lit (js ''PAGE''), Plus Space Greedy, Capture Digit Greedy]
      (js ''PAGE'' @ w3 @ T) = Some [T]"
    by (simp only: rx_match_Lit)
  have "hd (js ''PAGE'' @ w3 @ T) = hd (js ''PAGE'')" using js_PAGE(1) by simp
  then have r2: "run Space (w2 @ js ''PAGE'' @ w3 @ T) = length w2"
    by (intro run_block) (use w2 js_PAGE in auto)
  show ?thesis
    by (rule plus_greedy_full) (use w2 r2 l in \<open>auto simp: Suc_le_eq\<close>)
qed

lemma page_tail_shape:
  assumes "rx_match [Plus Space Greedy, Lit (js ''PAGE''), Plus Space Greedy, Capture Digit Greedy]
             s = Some caps"
  obtains u1 u2 ds where "s = u1 @ js ''PAGE'' @ u2 @ ds"
    and "u1 \<noteq> []" and "\<forall>c\<in>set u1. isSpace c"
    and "u2 \<noteq> []" and "\<forall>c\<in>set u2. isSpace c"
    and "ds \<noteq> []" and "\<forall>c\<in>set ds. isDigit c"
proof -
  from assms obtain u1 v1 where 1: "s = u1 @ v1" "u1 \<noteq> []" "\<forall>c\<in>set u1. inClass Space c"
    and m1: "rx_match [Lit (js ''PAGE''), Plus Space Greedy, Capture Digit Greedy] v1 = Some caps"
    by (rule rx_match_PlusE)
  from m1 obtain v2 where 2: "v1 = js ''PAGE'' @ v2"
    and m2: "rx_match [Plus Space Greedy, Capture Digit Greedy] v2 = Some caps"
    by (rule rx_match_LitE)
  from m2 obtain u2 v3 where 3: "v2 = u2 @ v3" "u2 \<noteq> []" "\<forall>c\<in>set u2. inClass Space c"
    and m3: "rx_match [Capture Digit Greedy] v3 = Some caps"
    by (rule rx_match_PlusE)
  from m3 obtain ds v4 c4 where 4: "v3 = ds @ v4" "ds \<noteq> []" "\<forall>c\<in>set ds. inClass Digit c"
    and m4: "rx_match [] v4 = Some c4"
    by (rule rx_match_CaptureE)
  from m4 have "v4 = []" by (simp add: rx_match_Nil split: if_splits)
  with 1 2 3 4 have e: "s = u1 @ js ''PAGE'' @ u2 @ ds" by simp
  from 1(3) 3(3) 4(3) have "\<forall>c\<in>set u1. isSpace c" "\<forall>c\<in>set u2. isSpace c"
    "\<forall>c\<in>set ds. isDigit c"
    by simp_all
  from that[OF e 1(2) this(1) 3(2) this(2) 4(2) this(3)] show ?thesis .
qed

lemma page_shape:
  assumes "rx_match listPagePattern s = Some caps"
  obtains pre u ds where "s = pre @ u @ ds"
    and "u \<noteq> []" and "\<forall>c\<in>set u. isSpace c"
    and "ds \<noteq> []" and "\<forall>c\<in>set ds. isDigit c"
proof -
  let ?R = "[Plus Space Greedy, Lit (js ''PAGE''), Plus Space Greedy, Capture Digit Greedy]"
  from assms have "rx_match (Lit (js ''LIST'') # Plus Space Greedy # Capture AnyChar Lazy # ?R) s
      = Some caps"
    by (simp only: listPagePattern_def)
  then obtain v1 where 1: "s = js ''LIST'' @ v1"
    and m1: "rx_match (Plus Space Greedy # Capture AnyChar Lazy # ?R) v1 = Some caps"
    by (rule rx_match_LitE)
  from m1 obtain u1 v2 where 2: "v1 = u1 @ v2"
    and m2: "rx_match (Capture AnyChar Lazy # ?R) v2 = Some caps"
    by (rule rx_match_PlusE)
  from m2 obtain x v3 c3 where 3: "v2 = x @ v3" and m3: "rx_match ?R v3 = Some c3"
    by (rule rx_match_CaptureE)
  from m3 obtain w2 w3 ds where 4: "v3 = w2 @ js ''PAGE'' @ w3 @ ds"
    and w3: "w3 \<noteq> []" "\<forall>c\<in>set w3. isSpace c"
    and ds: "ds \<noteq> []" "\<forall>c\<in>set ds. isDigit c"
    by (rule page_tail_shape)
  from 1 2 3 4 have "s = (js ''LIST'' @ u1 @ x @ w2 @ js ''PAGE'') @ w3 @ ds" by simp
  from that[OF this w3 ds] show ?thesis .
qed

lemma page_rule_match:
  assumes w1: "w1 \<noteq> []" "\<forall>c\<in>set w1. isSpace c"
    and w2: "w2 \<noteq> []" "\<forall>c\<in>set w2. isSpace c"
    and w3: "w3 \<noteq> []" "\<forall>c\<in>set w3. isSpace c"
    and P: "P \<noteq> []" "\<not> isSpace (hd P)" "\<not> isSpace (last P)"
      "\<forall>c\<in>set P. \<not> isLineTerminator c"
    and T: "T \<noteq> []" "\<forall>c\<in>set T. isDigit c"
  shows "rx_match listPagePattern (js ''LIST'' @ w1 @ P @ w2 @ js ''PAGE'' @ w3 @ T) = Some [P, T]"
proof -
  let ?R = "[Plus Space Greedy, Lit (js ''PAGE''), Plus Space Greedy, Capture Digit Greedy]"
  let ?t = "w2 @ js ''PAGE'' @ w3 @ T"
  let ?s = "P @ ?t"
  have Tn: "\<forall>c\<in>set T. \<not> isSpace c" using T(2) digit_not_space by blast
  have noLT: "\<forall>c\<in>set P. inClass AnyChar c" using P(4) by simp
  have le: "length P \<le> run AnyChar ?s"
    using run_all[OF noLT, of ?t] by simp
  have early: "\<forall>j. 1 \<le> j \<and> j < length P \<longrightarrow> rx_match ?R (drop j ?s) = None"
  proof (intro allI impI)
    fix j assume j: "1 \<le> j \<and> j < length P"
    let ?X = "drop j P"
    from j have X: "?X \<noteq> []" "last ?X = last P" by simp_all
    have d: "drop j ?s = ?X @ ?t" using j by simp
    show "rx_match ?R (drop j ?s) = None"
    proof (rule ccontr)
      assume "rx_match ?R (drop j ?s) \<noteq> None"
      then obtain caps where "rx_match ?R (?X @ ?t) = Some caps" unfolding d by auto
      then obtain u1 u2 ds where e: "?X @ ?t = u1 @ js ''PAGE'' @ u2 @ ds"
        and u1: "u1 \<noteq> []" "\<forall>c\<in>set u1. isSpace c"
        and u2: "u2 \<noteq> []" "\<forall>c\<in>set u2. isSpace c"
        and ds: "ds \<noteq> []" "\<forall>c\<in>set ds. isDigit c"
        by (rule page_tail_shape)
      have dn: "\<forall>c\<in>set ds. \<not> isSpace c" using ds(2) digit_not_space by blast
      from e have "(?X @ w2 @ js ''PAGE'' @ w3) @ T = (u1 @ js ''PAGE'' @ u2) @ ds" by simp
      then have "?X @ w2 @ js ''PAGE'' @ w3 = u1 @ js ''PAGE'' @ u2 \<and> T = ds"
        by (rule tail_block_unique[where Q = "\<lambda>c. \<not> isSpace c"])
           (use Tn dn w3 u2 spaces_hd_last(2) in auto)
      then have "(?X @ w2 @ js ''PAGE'') @ w3 = (u1 @ js ''PAGE'') @ u2" by simp
      then have "?X @ w2 @ js ''PAGE'' = u1 @ js ''PAGE'' \<and> w3 = u2"
        by (rule tail_block_unique[where Q = isSpace])
           (use w3 u2 js_PAGE in auto)
      then have "?X @ w2 = u1" by simp
      then have "last P \<in> set u1" using X by (metis Un_iff last_in_set set_append)
      with u1(2) P(3) show False by blast
    qed
  qed
  have "rx_match (Capture AnyChar Lazy # ?R) ?s = Some (take (length P) ?s # [T])"
    by (rule capture_lazy_at[OF _ le early])
       (use P page_tail_match[OF w2 w3 T] in \<open>auto simp: Suc_le_eq\<close>)
  then have c: "rx_match (Capture AnyChar Lazy # ?R) ?s = Some [P, T]" by simp
  have "hd ?s = hd P" using P(1) by simp
  then have r1: "run Space (w1 @ ?s) = length w1"
    by (intro run_block) (use w1 P in auto)
  have "rx_match (Plus Space Greedy # Capture AnyChar Lazy # ?R) (w1 @ ?s) = Some [P, T]"
    by (rule plus_greedy_full) (use w1 r1 c in \<open>auto simp: Suc_le_eq\<close>)
  then show ?thesis
    by (simp only: listPagePattern_def rx_match_Lit)
qed

lemma page_rule_no_match:
  assumes w3: "w3 \<noteq> []" "\<forall>c\<in>set w3. isSpace c"
    and T: "\<forall>c\<in>set T. \<not> isSpace c" "\<not> (\<forall>c\<in>set T. isDigit c)"
  shows "rx_match listPagePattern (pre @ w3 @ T) = None"
proof (rule ccontr)
  assume "rx_match listPagePattern (pre @ w3 @ T) \<noteq> None"
  then obtain caps where "rx_match listPagePattern (pre @ w3 @ T) = Some caps"
    by auto
  then obtain pre' u ds where e: "pre @ w3 @ T = pre' @ u @ ds"
    and u: "u \<noteq> []" "\<forall>c\<in>set u. isSpace c"
    and ds: "ds \<noteq> []" "\<forall>c\<in>set ds. isDigit c"
    by (rule page_shape)
  have dn: "\<forall>c\<in>set ds. \<not> isSpace c" using ds(2) digit_not_space by blast
  from e have "(pre @ w3) @ T = (pre' @ u) @ ds" by simp
  then have "pre @ w3 = pre' @ u \<and> T = ds"
    by (rule tail_block_unique[where Q = "\<lambda>c. \<not> isSpace c"])
       (use T dn w3 u spaces_hd_last(2) in auto)
  with ds(2) T(2) show False by simp
qed

lemma list_rule_match:
  assumes w1: "w1 \<noteq> []" "\<forall>c\<in>set w1. isSpace c"
    and s: "s \<noteq> []" "\<not> isSpace (hd s)" "\<forall>c\<in>set s. \<not> isLineTerminator c"
  shows "rx_match listPattern (js ''LIST'' @ w1 @ s) = Some [s]"
proof -
  have r: "run AnyChar s = length s" using run_all[of s AnyChar "[]"] s(3) by simp
  have "rx_match [Capture AnyChar Greedy] s = Some [take (run AnyChar s) s]"
    by (rule capture_greedy_full) (use s(1) r in \<open>auto simp: Suc_le_eq rx_match_Nil\<close>)
  then have c: "rx_match [Capture AnyChar Greedy] s = Some [s]" by (simp add: r)
  have r1: "run Space (w1 @ s) = length w1"
    by (rule run_block) (use w1 s in auto)
  have "rx_match [Plus Space Greedy, Capture AnyChar Greedy] (w1 @ s) = Some [s]"
    by (rule plus_greedy_full) (use w1 r1 c in \<open>auto simp: Suc_le_eq\<close>)
  then show ?thesis
    by (simp only: listPattern_def rx_match_Lit)
qed

lemma list_rule_no_match:
  assumes P: "P \<noteq> []" "\<not> isSpace (hd P)"
    and t: "\<exists>c\<in>set t. isLineTerminator c"
  shows "rx_match listPattern (js ''LIST'' @ w1 @ P @ t) = None"
proof (rule ccontr)
  assume "rx_match listPattern (js ''LIST'' @ w1 @ P @ t) \<noteq> None"
  then obtain caps where "rx_match (Lit (js ''LIST'') # [Plus Space Greedy, Capture AnyChar Greedy])
      (js ''LIST'' @ w1 @ P @ t) = Some caps"
    by (auto simp only: listPattern_def)
  then have "rx_match [Plus Space Greedy, Capture AnyChar Greedy] (w1 @ P @ t) = Some caps"
    by (simp only: rx_match_Lit)
  then obtain u v where 1: "w1 @ P @ t = u @ v" and u: "\<forall>c\<in>set u. inClass Space c"
    and m: "rx_match [Capture AnyChar Greedy] v = Some caps"
    by (rule rx_match_PlusE)
  from m obtain x v' c' where 2: "v = x @ v'" and x: "\<forall>c\<in>set x. inClass AnyChar c"
    and m': "rx_match [] v' = Some c'"
    by (rule rx_match_CaptureE)
  from m' have "v' = []" by (simp add: rx_match_Nil split: if_splits)
  with 1 2 have "(w1 @ P) @ t = u @ x" by simp
  then obtain us where "(w1 @ P = u @ us \<and> us @ t = x) \<or> ((w1 @ P) @ us = u \<and> t = us @ x)"
    unfolding append_eq_append_conv2 by blast
  then show False
  proof
    assume "w1 @ P = u @ us \<and> us @ t = x"
    then have "set t \<subseteq> set x" by auto
    with t x show False by auto
  next
    assume "(w1 @ P) @ us = u \<and> t = us @ x"
    then have "set P \<subseteq> set u" by auto
    with P have "hd P \<in> set u" by auto
    with u P(2) show False by auto
  qed
qed

lemma other_rules_no_match:
  assumes "s = js ''LIST'' @ t"
  shows "rx_match deleteConfirmPattern s = None" "rx_match deletePattern s = None"
    "rx_match movePattern s = None" "rx_match summaryPattern s = None"
    "rx_match helpPattern s = None"
  unfolding assms deleteConfirmPattern_def deletePattern_def movePattern_def summaryPattern_def
    helpPattern_def
  by (rule rx_match_Lit_mismatch; simp add: js_def)+

lemma parseInt_exact: "decimal ds < 2 ^ 53 \<Longrightarrow> parseInt ds = Num (int (decimal ds))"
  by (simp add: parseInt_def toDouble_def)

lemma parse_list_page:
  assumes b: "toUpperCase h (trim m) = js ''LIST'' @ w1 @ P @ w2 @ js ''PAGE'' @ w3 @ T"
    and w1: "w1 \<noteq> []" "\<forall>c\<in>set w1. isSpace c"
    and w2: "w2 \<noteq> []" "\<forall>c\<in>set w2. isSpace c"
    and w3: "w3 \<noteq> []" "\<forall>c\<in>set w3. isSpace c"
    and P: "P \<noteq> []" "\<not> isSpace (hd P)" "\<not> isSpace (last P)"
      "\<forall>c\<in>set P. \<not> isLineTerminator c"
    and T: "T \<noteq> []" "\<forall>c\<in>set T. \<not> isSpace c"
  shows "parseCommand h m =
           Inr (if (\<forall>c\<in>set T. isDigit c) then LIST P (parseInt T)
                else if (\<forall>c\<in>set (w2 @ w3). \<not> isLineTerminator c)
                     then LIST (P @ w2 @ js ''PAGE'' @ w3 @ T) (Num 1)
                else UNKNOWN)"
proof (cases "\<forall>c\<in>set T. isDigit c")
  case True
  from page_rule_match[OF w1 w2 w3 P T(1) True] b
  show ?thesis by (simp add: parseCommand_def rx_test_def True)
next
  case False
  let ?s = "P @ w2 @ js ''PAGE'' @ w3 @ T"
  have "rx_match listPagePattern ((js ''LIST'' @ w1 @ P @ w2 @ js ''PAGE'') @ w3 @ T) = None"
    using w3 T(2) False by (rule page_rule_no_match)
  with b have n: "rx_match listPagePattern (toUpperCase h (trim m)) = None" by simp
  show ?thesis
  proof (cases "\<forall>c\<in>set (w2 @ w3). \<not> isLineTerminator c")
    case lt: True
    have "\<forall>c\<in>set T. \<not> isLineTerminator c" using T(2) lineTerminator_isSpace by blast
    with lt P(4) js_PAGE(4) have "\<forall>c\<in>set ?s. \<not> isLineTerminator c" by auto
    moreover from P have "\<not> isSpace (hd ?s)" by (cases P) auto
    ultimately have "rx_match listPattern (js ''LIST'' @ w1 @ ?s) = Some [?s]"
      using w1 P(1) by (intro list_rule_match) auto
    with n b show ?thesis by (simp add: parseCommand_def rx_test_def False lt del: set_append)
  next
    case lt: False
    then have "\<exists>c\<in>set (w2 @ js ''PAGE'' @ w3 @ T). isLineTerminator c" by auto
    with P have "rx_match listPattern (js ''LIST'' @ w1 @ P @ w2 @ js ''PAGE'' @ w3 @ T) = None"
      by (intro list_rule_no_match) auto
    with n b other_rules_no_match[OF b] show ?thesis
      by (simp add: parseCommand_def rx_test_def False lt del: set_append)
  qed
qed

text \<open>Beyond \<open>2 ^ 53\<close> the page is not always the integer the digits write.\<close>

lemma parseInt_rounds:
  "parseInt (js ''9007199254740993'') = Num 9007199254740992"
  by (simp add: parseInt_def decimal_def js_def toDouble_def Let_def bitLength.simps)

text \<open>
  Claim C4 (as amended). Let the trimmed, upper-cased message be \<open>LIST\<close>, white space, a
  path \<open>P\<close>, white space, \<open>PAGE\<close>, white space and a last word \<open>T\<close> without white space,
  where \<open>P\<close> is not empty, neither begins nor ends with white space and holds no line
  terminator (it may hold spaces). When \<open>T\<close> is a run of decimal digits the grammar yields
  the listing of \<open>P\<close> at page \<open>parseInt T\<close>, which is the number the digits write when that
  is below \<open>2 ^ 53\<close>, zero included. Otherwise the page rule does not match: the rule
  \<open>LIST path\<close> applies to the whole rest and yields page \<open>1\<close> of the path \<open>P PAGE T\<close>
  (with the white space as written), unless the white space around \<open>PAGE\<close> holds a line
  terminator, in which case no rule matches and the intent is \<open>UNKNOWN\<close>.
\<close>

theorem list_page_rule:
  assumes b: "toUpperCase h (trim m) = js ''LIST'' @ w1 @ P @ w2 @ js ''PAGE'' @ w3 @ T"
    and w1: "w1 \<noteq> []" "\<forall>c\<in>set w1. isSpace c"
    and w2: "w2 \<noteq> []" "\<forall>c\<in>set w2. isSpace c"
    and w3: "w3 \<noteq> []" "\<forall>c\<in>set w3. isSpace c"
    and P: "P \<noteq> []" "\<not> isSpace (hd P)" "\<not> isSpace (last P)"
      "\<forall>c\<in>set P. \<not> isLineTerminator c"
    and T: "T \<noteq> []" "\<forall>c\<in>set T. \<not> isSpace c"
  shows "parseCommand h m =
           Inr (if (\<forall>c\<in>set T. isDigit c) then LIST P (parseInt T)
                else if (\<forall>c\<in>set (w2 @ w3). \<not> isLineTerminator c)
                     then LIST (P @ w2 @ js ''PAGE'' @ w3 @ T) (Num 1)
                else UNKNOWN) \<and>
         (decimal T < 2 ^ 53 \<longrightarrow> parseInt T = Num (int (decimal T)))"
  using parse_list_page[OF assms] parseInt_exact by blast

theorem list_page_rule_witness:
  "parseCommand asciiHost (js ''list my docs page 2'') = Inr (LIST (js ''MY DOCS'') (Num 2)) \<and>
   parseCommand asciiHost (js ''list  docs   page  0'') = Inr (LIST (js ''DOCS'') (Num 0)) \<and>
   parseCommand asciiHost (js ''list docs page two'') = Inr (LIST (js ''DOCS PAGE TWO'') (Num 1)) \<and>
   parseCommand asciiHost (js ''list docs page'' @ [0x0A] @ js ''x'') = Inr UNKNOWN"
proof -
  have a: "toUpperCase asciiHost (trim (js ''list my docs page 2'')) =
      js ''LIST'' @ [32] @ js ''MY DOCS'' @ [32] @ js ''PAGE'' @ [32] @ js ''2''"
    by (simp add: asciiHost_def js_def trim_def isSpace_def isLineTerminator_def upperUnit_def)
  have b: "toUpperCase asciiHost (trim (js ''list  docs   page  0'')) =
      js ''LIST'' @ [32, 32] @ js ''DOCS'' @ [32, 32, 32] @ js ''PAGE'' @ [32, 32] @ js ''0''"
    by (simp add: asciiHost_def js_def trim_def isSpace_def isLineTerminator_def upperUnit_def)
  have c: "toUpperCase asciiHost (trim (js ''list docs page two'')) =
      js ''LIST'' @ [32] @ js ''DOCS'' @ [32] @ js ''PAGE'' @ [32] @ js ''TWO''"
    by (simp add: asciiHost_def js_def trim_def isSpace_def isLineTerminator_def upperUnit_def)
  have d: "toUpperCase asciiHost (trim (js ''list docs page'' @ [0x0A] @ js ''x'')) =
      js ''LIST'' @ [32] @ js ''DOCS'' @ [32] @ js ''PAGE'' @ [10] @ js ''X''"
    by (simp add: asciiHost_def js_def trim_def isSpace_def isLineTerminator_def upperUnit_def)
  have e: "parseInt (js ''2'') = Num 2" "parseInt (js ''0'') = Num 0"
    by (simp_all add: parseInt_def decimal_def js_def toDouble_def)
  have "parseCommand asciiHost (js ''list my docs page 2'') = Inr (LIST (js ''MY DOCS'') (Num 2))"
    using list_page_rule[OF a] e
    by (simp add: js_def isSpace_def isLineTerminator_def isDigit_def)
  moreover
  have "parseCommand asciiHost (js ''list  docs   page  0'') = Inr (LIST (js ''DOCS'') (Num 0))"
    using list_page_rule[OF b] e
    by (simp add: js_def isSpace_def isLineTerminator_def isDigit_def)
  moreover
  have "parseCommand asciiHost (js ''list docs page two'') = Inr (LIST (js ''DOCS PAGE TWO'') (Num 1))"
    using list_page_rule[OF c]
    by (simp add: js_def isSpace_def isLineTerminator_def isDigit_def)
  moreover
  have "parseCommand asciiHost (js ''list docs page'' @ [0x0A] @ js ''x'') = Inr UNKNOWN"
    using list_page_rule[OF d]
    by (simp add: js_def isSpace_def isLineTerminator_def isDigit_def)
  ultimately show ?thesis by blast
qed

text \<open>
  The claim as stated fails: a malformed page number is not routed to \<open>UNKNOWN\<close>, and
  the page number \<open>0\<close> is accepted.
\<close>

theorem list_page_counterexample:
  "parseCommand asciiHost (js ''LIST docs PAGE x'') \<noteq> Inr UNKNOWN \<and>
   parseCommand asciiHost (js ''LIST docs PAGE 0'') = Inr (LIST (js ''DOCS'') (Num 0))"
proof -
  have a: "toUpperCase asciiHost (trim (js ''LIST docs PAGE x'')) =
      js ''LIST'' @ [32] @ js ''DOCS'' @ [32] @ js ''PAGE'' @ [32] @ js ''X''"
    by (simp add: asciiHost_def js_def trim_def isSpace_def isLineTerminator_def upperUnit_def)
  have b: "toUpperCase asciiHost (trim (js ''LIST docs PAGE 0'')) =
      js ''LIST'' @ [32] @ js ''DOCS'' @ [32] @ js ''PAGE'' @ [32] @ js ''0''"
    by (simp add: asciiHost_def js_def trim_def isSpace_def isLineTerminator_def upperUnit_def)
  have e: "parseInt (js ''0'') = Num 0"
    by (simp add: parseInt_def decimal_def js_def toDouble_def)
  have "parseCommand asciiHost (js ''LIST docs PAGE x'') \<noteq> Inr UNKNOWN"
    using parse_list_page[OF a]
    by (simp add: js_def isSpace_def isLineTerminator_def isDigit_def)
  moreover
  have "parseCommand asciiHost (js ''LIST docs PAGE 0'') = Inr (LIST (js ''DOCS'') (Num 0))"
    using parse_list_page[OF b] e
    by (simp add: js_def isSpace_def isLineTerminator_def isDigit_def)
  ultimately show ?thesis by blast
qed

section \<open>Calls to the store\<close>

lemma drive_no_fault: "faults d = [] \<Longrightarrow> d\<lparr>faults := []\<rparr> = d"
  by (cases d) simp

lemma list_ok:
  "faults d = [] \<Longrightarrow>
     drive_files_list q b d = (Inr (answer q b (store d)), d\<lparr>calls := calls d @ [FilesList q b]\<rparr>)"
  by (cases d) (simp add: drive_files_list_def nextFault_def called_def)

lemma delete_ok:
  "faults d = [] \<Longrightarrow> i \<in> set (map fileId (store d)) \<Longrightarrow>
     drive_files_delete i d =
       (Inr (), d\<lparr>calls := calls d @ [FilesDelete i], store := filter (\<lambda>f. fileId f \<noteq> i) (store d)\<rparr>)"
  by (cases d) (simp add: drive_files_delete_def nextFault_def called_def)

lemma update_ok:
  "faults d = [] \<Longrightarrow> i \<in> set (map fileId (store d)) \<Longrightarrow>
     drive_files_update i a r d =
       (Inr (), d\<lparr>calls := calls d @ [FilesUpdate i a r],
                    store := map (\<lambda>f. if fileId f = i then f\<lparr>parents := reparent a r (parents f)\<rparr> else f)
                               (store d)\<rparr>)"
  by (cases d) (simp add: drive_files_update_def nextFault_def called_def)

lemma find_SomeD: "find P xs = Some x \<Longrightarrow> x \<in> set xs \<and> P x"
  by (induction xs) (auto split: if_splits)

lemma set_answer: "set (answer q b fs) \<subseteq> set fs"
  by (auto simp: answer_def Let_def)

lemma answer_children: "answer [InParents i, NotTrashed] True fs = children i fs"
  by (simp add: answer_def children_def)

lemma resolveEntry_in_store:
  "resolveEntry h kind nm fs = Some e \<Longrightarrow> e \<in> set fs"
proof -
  assume r: "resolveEntry h kind nm fs = Some e"
  show ?thesis
  proof (cases "answer (NameEq nm # kind) False fs")
    case Nil
    with r have "find (sameNameCI h nm) (answer kind False fs) = Some e"
      by (simp add: resolveEntry_def)
    then have "e \<in> set (answer kind False fs)"
      by (auto dest: find_SomeD)
    with set_answer show ?thesis by blast
  next
    case (Cons f rest)
    with r have "e = f" by (simp add: resolveEntry_def)
    with Cons have "e \<in> set (answer (NameEq nm # kind) False fs)" by simp
    with set_answer show ?thesis by blast
  qed
qed

lemma deleteFile_spec:
  assumes nf: "faults d = []"
  shows "deleteFile h p d =
     (case resolveEntry h [NotTrashed] p (store d) of
        None \<Rightarrow> (Inl ((js ''File '') @ quoted p @ (js '' not found'')),
                  d\<lparr>calls := calls d @ resolveQueries [NotTrashed] p (store d)\<rparr>)
      | Some e \<Rightarrow> (Inr \<lparr>deletedName = p\<rparr>,
                  d\<lparr>calls := calls d @ resolveQueries [NotTrashed] p (store d) @ [FilesDelete (fileId e)],
                    store := filter (\<lambda>f. fileId f \<noteq> fileId e) (store d)\<rparr>))"
proof (cases "answer [NameEq p, NotTrashed] False (store d)")
  case Nil
  let ?d1 = "d\<lparr>calls := calls d @ [FilesList [NameEq p, NotTrashed] False]\<rparr>"
  have f1: "faults ?d1 = []" using nf by simp
  show ?thesis
  proof (cases "find (sameNameCI h p) (answer [NotTrashed] False (store d))")
    case None
    with Nil show ?thesis
      by (simp add: deleteFile_def list_ok[OF nf] list_ok[OF f1] resolveEntry_def resolveQueries_def)
  next
    case (Some e)
    then have "e \<in> set (store d)" using set_answer by (blast dest: find_SomeD)
    then have "fileId e \<in> set (map fileId (store d))" by simp
    with Nil Some show ?thesis
      by (simp add: deleteFile_def list_ok[OF nf] list_ok[OF f1] resolveEntry_def resolveQueries_def
          delete_ok nf)
  qed
next
  case (Cons e rest)
  then have "e \<in> set (answer [NameEq p, NotTrashed] False (store d))" by simp
  then have "e \<in> set (store d)" using set_answer by blast
  then have "fileId e \<in> set (map fileId (store d))" by simp
  with Cons show ?thesis
    by (simp add: deleteFile_def list_ok[OF nf] resolveEntry_def resolveQueries_def delete_ok nf)
qed

lemma listFiles_spec:
  assumes nf: "faults d = []"
  shows "listFiles h p pg d =
     (case folderIdOf h p (store d) of
        None \<Rightarrow> (Inl ((js ''Folder '') @ quoted p @ (js '' not found'')),
                  d\<lparr>calls := calls d @ folderQueries p (store d)\<rparr>)
      | Some fid \<Rightarrow>
          (Inr \<lparr>files = js_slice (children fid (store d)) (js_times (js_minus pg 1) pageSize)
                            (js_plus (js_times (js_minus pg 1) pageSize) pageSize),
                 totalFiles = length (children fid (store d)),
                 page = pg,
                 totalPages = \<lceil>real (length (children fid (store d))) / real_of_int pageSize\<rceil>\<rparr>,
           d\<lparr>calls := calls d @ folderQueries p (store d)
                          @ [FilesList [InParents fid, NotTrashed] True]\<rparr>))"
proof (cases "p \<noteq> (js ''/'') \<and> p \<noteq> (js ''ROOT'')")
  case False
  then show ?thesis
    by (auto simp: listFiles_def list_ok nf folderIdOf_def folderQueries_def answer_children Let_def)
next
  case True
  let ?d1 = "d\<lparr>calls := calls d @ [FilesList [NameEq p, MimeEq folderMime] False]\<rparr>"
  have f1: "faults ?d1 = []" using nf by simp
  let ?d2 = "?d1\<lparr>calls := calls ?d1 @ [FilesList [MimeEq folderMime] False]\<rparr>"
  have f2: "faults ?d2 = []" using nf by simp
  show ?thesis
  proof (cases "answer [NameEq p, MimeEq folderMime] False (store d)")
    case Nil
    show ?thesis
    proof (cases "find (sameNameCI h p) (answer [MimeEq folderMime] False (store d))")
      case None
      with Nil True show ?thesis
        by (simp add: listFiles_def list_ok nf folderIdOf_def folderQueries_def
            resolveEntry_def resolveQueries_def)
    next
      case (Some e)
      with Nil True show ?thesis
        by (simp add: listFiles_def list_ok nf folderIdOf_def
            folderQueries_def resolveEntry_def resolveQueries_def answer_children Let_def)
    qed
  next
    case (Cons e rest)
    with True show ?thesis
      by (simp add: listFiles_def list_ok nf folderIdOf_def
            folderQueries_def resolveEntry_def resolveQueries_def answer_children Let_def)
  qed
qed

lemma list_InrD:
  "drive_files_list q b d = (Inr fs, d') \<Longrightarrow> fs = answer q b (store d) \<and> store d' = store d"
  by (auto simp: drive_files_list_def called_def split: option.splits)

lemma update_InrD:
  "drive_files_update i a r d = (Inr u, d') \<Longrightarrow>
     store d' = map (\<lambda>f. if fileId f = i then f\<lparr>parents := reparent a r (parents f)\<rparr> else f) (store d)"
  by (auto simp: drive_files_update_def called_def split: option.splits if_splits)

lemma moveFile_success:
  assumes mv: "moveFile h s t d = (Inr r, d')"
  shows "\<exists>src dst. resolveEntry h [NotTrashed] s (store d) = Some src \<and>
           folderIdOf h t (store d) = Some dst \<and>
           store d' = map (\<lambda>f. if fileId f = fileId src
                                then f\<lparr>parents := reparent dst (parents src) (parents f)\<rparr> else f)
                        (store d)"
proof -
  define A where "A = drive_files_list [NameEq s, NotTrashed] False d"
  define B where "B = (\<lambda>found d1.
     if length found = 0 then
       (case drive_files_list [NotTrashed] False d1 of
          (Inl err, d2) \<Rightarrow> (Inl err, d2)
        | (Inr allFiles, d2) \<Rightarrow>
            (case find (sameNameCI h s) allFiles of
               None \<Rightarrow> (Inl ((js ''Source file '') @ quoted s @ (js '' not found'')), d2)
             | Some matchingFile \<Rightarrow> (Inr [matchingFile], d2)))
     else (Inr found, d1))"
  define C where "C = (\<lambda>d3.
     if t \<noteq> (js ''/'') \<and> t \<noteq> (js ''ROOT'') then
       (case drive_files_list [NameEq t, MimeEq folderMime] False d3 of
          (Inl err, d4) \<Rightarrow> (Inl err, d4)
        | (Inr folders, d4) \<Rightarrow>
            if length folders = 0 then
              (case drive_files_list [MimeEq folderMime] False d4 of
                 (Inl err, d5) \<Rightarrow> (Inl err, d5)
               | (Inr allFolders, d5) \<Rightarrow>
                   (case find (sameNameCI h t) allFolders of
                      None \<Rightarrow> (Inl ((js ''Destination folder '') @ quoted t @ (js '' not found'')), d5)
                    | Some matchingFolder \<Rightarrow> (Inr (fileId matchingFolder), d5)))
            else (case folders of
                    f # _ \<Rightarrow> (Inr (fileId f), d4)
                  | [] \<Rightarrow> (Inl (js ''TypeError''), d4)))
     else (Inr (js ''root''), d3))"
  have unfold: "moveFile h s t d =
     (case A of
        (Inl err, d1) \<Rightarrow> (Inl err, d1)
      | (Inr found, d1) \<Rightarrow>
          (case B found d1 of
             (Inl err, d3) \<Rightarrow> (Inl err, d3)
           | (Inr [], d3) \<Rightarrow> (Inl (js ''TypeError''), d3)
           | (Inr (sourceFile # _), d3) \<Rightarrow>
               (case C d3 of
                  (Inl err, d6) \<Rightarrow> (Inl err, d6)
                | (Inr destinationId, d6) \<Rightarrow>
                    (case drive_files_update (fileId sourceFile) destinationId (parents sourceFile) d6 of
                       (Inl err, d7) \<Rightarrow> (Inl err, d7)
                     | (Inr _, d7) \<Rightarrow> (Inr \<lparr>movedName = s, destination = t\<rparr>, d7)))))"
    unfolding moveFile_def A_def B_def C_def Let_def ..
  from mv obtain found d1 src rest d3 dst d6 u
    where a: "A = (Inr found, d1)" and b: "B found d1 = (Inr (src # rest), d3)"
      and c: "C d3 = (Inr dst, d6)"
      and u: "drive_files_update (fileId src) dst (parents src) d6 = (Inr u, d')"
    unfolding unfold by (auto split: prod.splits sum.splits list.splits)
  from a have found: "found = answer [NameEq s, NotTrashed] False (store d)" and s1: "store d1 = store d"
    unfolding A_def by (auto dest: list_InrD)
  from b found s1 have src: "resolveEntry h [NotTrashed] s (store d) = Some src" and s3: "store d3 = store d"
    unfolding B_def resolveEntry_def
    by (auto split: prod.splits sum.splits list.splits if_splits option.splits dest!: list_InrD)
  from c s3 have dst: "folderIdOf h t (store d) = Some dst" and s6: "store d6 = store d"
    unfolding C_def resolveEntry_def folderIdOf_def
    by (auto split: prod.splits sum.splits list.splits if_splits option.splits dest!: list_InrD)
  from update_InrD[OF u] s6 src dst show ?thesis by simp
qed

lemma moveFile_spec:
  assumes nf: "faults d = []"
  shows "moveFile h s t d =
     (case resolveEntry h [NotTrashed] s (store d) of
        None \<Rightarrow> (Inl (js ''Source file '' @ quoted s @ js '' not found''),
                  d\<lparr>calls := calls d @ resolveQueries [NotTrashed] s (store d)\<rparr>)
      | Some src \<Rightarrow>
          (case folderIdOf h t (store d) of
             None \<Rightarrow> (Inl (js ''Destination folder '' @ quoted t @ js '' not found''),
                       d\<lparr>calls := calls d @ resolveQueries [NotTrashed] s (store d)
                                      @ folderQueries t (store d)\<rparr>)
           | Some dst \<Rightarrow>
               (Inr \<lparr>movedName = s, destination = t\<rparr>,
                d\<lparr>calls := calls d @ resolveQueries [NotTrashed] s (store d)
                               @ folderQueries t (store d)
                               @ [FilesUpdate (fileId src) dst (parents src)],
                  store := map (\<lambda>f. if fileId f = fileId src
                                      then f\<lparr>parents := reparent dst (parents src) (parents f)\<rparr>
                                      else f) (store d)\<rparr>)))"
proof -
  define C where "C = (\<lambda>d3.
     if t \<noteq> js ''/'' \<and> t \<noteq> js ''ROOT'' then
       (case drive_files_list [NameEq t, MimeEq folderMime] False d3 of
          (Inl err, d4) \<Rightarrow> (Inl err, d4)
        | (Inr folders, d4) \<Rightarrow>
            if length folders = 0 then
              (case drive_files_list [MimeEq folderMime] False d4 of
                 (Inl err, d5) \<Rightarrow> (Inl err, d5)
               | (Inr allFolders, d5) \<Rightarrow>
                   (case find (sameNameCI h t) allFolders of
                      None \<Rightarrow> (Inl (js ''Destination folder '' @ quoted t @ js '' not found''), d5)
                    | Some matchingFolder \<Rightarrow> (Inr (fileId matchingFolder), d5)))
            else (case folders of
                    f # _ \<Rightarrow> (Inr (fileId f), d4)
                  | [] \<Rightarrow> (Inl (js ''TypeError''), d4)))
     else (Inr (js ''root''), d3))"
  define B where "B = (\<lambda>found d1.
     if length found = 0 then
       (case drive_files_list [NotTrashed] False d1 of
          (Inl err, d2) \<Rightarrow> (Inl err, d2)
        | (Inr allFiles, d2) \<Rightarrow>
            (case find (sameNameCI h s) allFiles of
               None \<Rightarrow> (Inl (js ''Source file '' @ quoted s @ js '' not found''), d2)
             | Some matchingFile \<Rightarrow> (Inr [matchingFile], d2)))
     else (Inr found, d1))"
  have unfold: "moveFile h s t d =
     (case drive_files_list [NameEq s, NotTrashed] False d of
        (Inl err, d1) \<Rightarrow> (Inl err, d1)
      | (Inr found, d1) \<Rightarrow>
          (case B found d1 of
             (Inl err, d3) \<Rightarrow> (Inl err, d3)
           | (Inr [], d3) \<Rightarrow> (Inl (js ''TypeError''), d3)
           | (Inr (sourceFile # _), d3) \<Rightarrow>
               (case C d3 of
                  (Inl err, d6) \<Rightarrow> (Inl err, d6)
                | (Inr destinationId, d6) \<Rightarrow>
                    (case drive_files_update (fileId sourceFile) destinationId (parents sourceFile) d6 of
                       (Inl err, d7) \<Rightarrow> (Inl err, d7)
                     | (Inr _, d7) \<Rightarrow> (Inr \<lparr>movedName = s, destination = t\<rparr>, d7)))))"
    unfolding moveFile_def B_def C_def Let_def ..
  have Cspec: "C d3 =
      (case folderIdOf h t (store d) of
         None \<Rightarrow> (Inl (js ''Destination folder '' @ quoted t @ js '' not found''),
                   d3\<lparr>calls := calls d3 @ folderQueries t (store d)\<rparr>)
       | Some dst \<Rightarrow> (Inr dst, d3\<lparr>calls := calls d3 @ folderQueries t (store d)\<rparr>))"
    if f3: "faults d3 = []" and s3: "store d3 = store d" for d3
  proof (cases "t \<noteq> js ''/'' \<and> t \<noteq> js ''ROOT''")
    case False
    then show ?thesis by (auto simp: C_def folderIdOf_def folderQueries_def)
  next
    case True
    show ?thesis
    proof (cases "answer [NameEq t, MimeEq folderMime] False (store d)")
      case Nil
      show ?thesis
      proof (cases "find (sameNameCI h t) (answer [MimeEq folderMime] False (store d))")
        case None
        with Nil True show ?thesis
          by (simp add: C_def list_ok f3 s3 folderIdOf_def folderQueries_def
              resolveEntry_def resolveQueries_def)
      next
        case (Some e)
        with Nil True show ?thesis
          by (simp add: C_def list_ok f3 s3 folderIdOf_def folderQueries_def
              resolveEntry_def resolveQueries_def)
      qed
    next
      case (Cons e rest)
      with True show ?thesis
        by (simp add: C_def list_ok f3 s3 folderIdOf_def folderQueries_def
            resolveEntry_def resolveQueries_def)
    qed
  qed
  let ?d1 = "d\<lparr>calls := calls d @ [FilesList [NameEq s, NotTrashed] False]\<rparr>"
  have A: "drive_files_list [NameEq s, NotTrashed] False d =
      (Inr (answer [NameEq s, NotTrashed] False (store d)), ?d1)"
    by (rule list_ok[OF nf])
  have Bspec: "B (answer [NameEq s, NotTrashed] False (store d)) ?d1 =
      (case resolveEntry h [NotTrashed] s (store d) of
         None \<Rightarrow> (Inl (js ''Source file '' @ quoted s @ js '' not found''),
                   d\<lparr>calls := calls d @ resolveQueries [NotTrashed] s (store d)\<rparr>)
       | Some src \<Rightarrow>
           (Inr (if answer [NameEq s, NotTrashed] False (store d) = [] then [src]
                 else answer [NameEq s, NotTrashed] False (store d)),
            d\<lparr>calls := calls d @ resolveQueries [NotTrashed] s (store d)\<rparr>))"
  proof (cases "answer [NameEq s, NotTrashed] False (store d)")
    case Nil
    then show ?thesis
      by (cases "find (sameNameCI h s) (answer [NotTrashed] False (store d))")
         (simp_all add: B_def list_ok nf resolveEntry_def resolveQueries_def)
  next
    case (Cons e rest)
    then show ?thesis
      by (simp add: B_def resolveEntry_def resolveQueries_def)
  qed
  show ?thesis
  proof (cases "resolveEntry h [NotTrashed] s (store d)")
    case None
    then show ?thesis unfolding unfold A by (simp add: Bspec)
  next
    case (Some src)
    let ?d3 = "d\<lparr>calls := calls d @ resolveQueries [NotTrashed] s (store d)\<rparr>"
    have f3: "faults ?d3 = []" "store ?d3 = store d" using nf by simp_all
    from Some have hd: "\<exists>rest. (if answer [NameEq s, NotTrashed] False (store d) = [] then [src]
                 else answer [NameEq s, NotTrashed] False (store d)) = src # rest"
      by (cases "answer [NameEq s, NotTrashed] False (store d)") (auto simp: resolveEntry_def)
    then obtain rest where rest: "(if answer [NameEq s, NotTrashed] False (store d) = [] then [src]
                 else answer [NameEq s, NotTrashed] False (store d)) = src # rest"
      by blast
    from Some have "src \<in> set (store d)" by (rule resolveEntry_in_store)
    then have mem: "fileId src \<in> set (map fileId (store d))" by simp
    show ?thesis
    proof (cases "folderIdOf h t (store d)")
      case None
      with Some show ?thesis
        unfolding unfold A by (simp add: Bspec rest Cspec[OF f3])
    next
      case dstSome: (Some dst)
      let ?d6 = "?d3\<lparr>calls := calls ?d3 @ folderQueries t (store d)\<rparr>"
      have f6: "faults ?d6 = []" "fileId src \<in> set (map fileId (store ?d6))"
        using nf mem by simp_all
      from Some dstSome mem show ?thesis
        unfolding unfold A
        by (simp add: Bspec rest Cspec[OF f3] update_ok nf)
    qed
  qed
qed

text \<open>
  The lookup of \<open>summarizeSpecificFile\<close> is the exact query alone: when it returns
  nothing the operation answers that the file is not found, and asks the store nothing
  else.
\<close>

lemma summarizeSpecificFile_exact_only:
  assumes nf: "faults d = []" and none: "answer [NameEq p, NotTrashed] False (store d) = []"
  shows "summarizeSpecificFile post key p d =
           (Inl (js ''File '' @ quoted p @ js '' not found''),
            d\<lparr>calls := calls d @ [FilesList [NameEq p, NotTrashed] False]\<rparr>)"
  by (simp add: summarizeSpecificFile_def list_ok[OF nf] none)


section \<open>Pagination\<close>

lemma take_min_length: "take (min n (length xs)) xs = take n xs"
  by (cases "n \<le> length xs") (simp_all add: min_def)

lemma js_slice_page:
  assumes "0 \<le> k"
  shows "js_slice xs (Num k) (Num (k + 10)) = take 10 (drop (nat k) xs)"
proof -
  from assms obtain m where m: "k = int m" using nonneg_int_cases by blast
  show ?thesis
  proof (cases "m \<le> length xs")
    case True
    have "nat (min (int m + 10) (int (length xs)) - int m) = min 10 (length (drop m xs))"
      using True by (auto simp: min_def)
    then have "js_slice xs (Num k) (Num (k + 10)) = take (min 10 (length (drop m xs))) (drop m xs)"
      using True by (simp add: js_slice_def Let_def m min_def)
    then show ?thesis by (simp only: take_min_length m nat_int)
  next
    case False
    then show ?thesis by (simp add: js_slice_def Let_def min_def m)
  qed
qed

text \<open>
  Claim C6. With a store that answers, for a folder that resolves and a page \<open>n \<ge> 1\<close>,
  \<open>listFiles\<close> returns a result and no error: its page is \<open>n\<close>, its total is the number
  \<open>L\<close> of children that are not trashed, its number of pages is the ceiling of \<open>L / 10\<close>,
  and its files are the at most 10 entries of the children in name order from index
  \<open>(n - 1) * 10\<close>; none when that index is \<open>L\<close> or more.
\<close>

theorem listFiles_pagination:
  assumes nf: "faults d = []"
    and folder: "folderIdOf h p (store d) = Some fid"
    and n: "1 \<le> n"
  shows "\<exists>r d'. listFiles h p (Num n) d = (Inr r, d') \<and>
           page r = Num n \<and>
           totalFiles r = length (children fid (store d)) \<and>
           totalPages r = \<lceil>real (length (children fid (store d))) / 10\<rceil> \<and>
           files r = take 10 (drop (nat ((n - 1) * 10)) (children fid (store d))) \<and>
           length (files r) \<le> 10 \<and>
           (int (length (children fid (store d))) \<le> (n - 1) * 10 \<longrightarrow> files r = [])"
proof -
  let ?c = "children fid (store d)"
  define r where "r = \<lparr>files = js_slice ?c (Num ((n - 1) * pageSize)) (Num ((n - 1) * pageSize + pageSize)),
     totalFiles = length ?c, page = Num n,
     totalPages = \<lceil>real (length ?c) / real_of_int pageSize\<rceil>\<rparr>"
  from n have k: "0 \<le> (n - 1) * 10" by simp
  have eq: "listFiles h p (Num n) d =
      (Inr r, d\<lparr>calls := calls d @ folderQueries p (store d) @ [FilesList [InParents fid, NotTrashed] True]\<rparr>)"
    by (simp add: listFiles_spec[OF nf] folder r_def)
  have f: "files r = take 10 (drop (nat ((n - 1) * 10)) ?c)"
    using js_slice_page[OF k, of ?c] by (simp add: r_def pageSize_def)
  have l: "length (files r) \<le> 10" unfolding f by simp
  have e: "int (length ?c) \<le> (n - 1) * 10 \<longrightarrow> files r = []"
    unfolding f using k by auto
  have t: "totalPages r = \<lceil>real (length ?c) / 10\<rceil>" by (simp add: r_def pageSize_def)
  have "page r = Num n" "totalFiles r = length ?c" by (simp_all add: r_def)
  with eq f l e t show ?thesis by blast
qed

section \<open>Resolution, deletion and moving\<close>

text \<open>
  With a store that answers (no transport fault), the lookups written out in
  \<open>deleteFile\<close>, \<open>listFiles\<close> and \<open>moveFile\<close> (source, then destination) are the
  two-phase resolution: the exact query comes first, the query for all entries of the
  kind is issued only when the exact one returned nothing (\<open>resolveQueries\<close>), the entry
  taken is the first exact match or else the first match without regard to case in the
  order of the store (\<open>resolveEntry\<close>), and when neither phase matches the operation
  returns an error object whose message quotes the query string; no call is made after
  that and nothing is thrown.
\<close>

theorem resolution_two_phase:
  assumes nf: "faults d = []"
  shows "deleteFile h p d =
     (case resolveEntry h [NotTrashed] p (store d) of
        None \<Rightarrow> (Inl (js ''File '' @ quoted p @ js '' not found''),
                  d\<lparr>calls := calls d @ resolveQueries [NotTrashed] p (store d)\<rparr>)
      | Some e \<Rightarrow> (Inr \<lparr>deletedName = p\<rparr>,
                  d\<lparr>calls := calls d @ resolveQueries [NotTrashed] p (store d) @ [FilesDelete (fileId e)],
                    store := filter (\<lambda>f. fileId f \<noteq> fileId e) (store d)\<rparr>))
   \<and> listFiles h p pg d =
     (case folderIdOf h p (store d) of
        None \<Rightarrow> (Inl (js ''Folder '' @ quoted p @ js '' not found''),
                  d\<lparr>calls := calls d @ folderQueries p (store d)\<rparr>)
      | Some fid \<Rightarrow>
          (Inr \<lparr>files = js_slice (children fid (store d)) (js_times (js_minus pg 1) pageSize)
                            (js_plus (js_times (js_minus pg 1) pageSize) pageSize),
                 totalFiles = length (children fid (store d)),
                 page = pg,
                 totalPages = \<lceil>real (length (children fid (store d))) / real_of_int pageSize\<rceil>\<rparr>,
           d\<lparr>calls := calls d @ folderQueries p (store d)
                          @ [FilesList [InParents fid, NotTrashed] True]\<rparr>))
   \<and> moveFile h s t d =
     (case resolveEntry h [NotTrashed] s (store d) of
        None \<Rightarrow> (Inl (js ''Source file '' @ quoted s @ js '' not found''),
                  d\<lparr>calls := calls d @ resolveQueries [NotTrashed] s (store d)\<rparr>)
      | Some src \<Rightarrow>
          (case folderIdOf h t (store d) of
             None \<Rightarrow> (Inl (js ''Destination folder '' @ quoted t @ js '' not found''),
                       d\<lparr>calls := calls d @ resolveQueries [NotTrashed] s (store d)
                                      @ folderQueries t (store d)\<rparr>)
           | Some dst \<Rightarrow>
               (Inr \<lparr>movedName = s, destination = t\<rparr>,
                d\<lparr>calls := calls d @ resolveQueries [NotTrashed] s (store d)
                               @ folderQueries t (store d)
                               @ [FilesUpdate (fileId src) dst (parents src)],
                  store := map (\<lambda>f. if fileId f = fileId src
                                      then f\<lparr>parents := reparent dst (parents src) (parents f)\<rparr>
                                      else f) (store d)\<rparr>)))"
  using deleteFile_spec[OF nf] listFiles_spec[OF nf] moveFile_spec[OF nf] by simp

lemma webhook_delete_confirm_drive:
  assumes "reqBody req = Some b" and "b \<noteq> []"
    and "parseCommand (hostOf env) b = Inr (DELETE_CONFIRM p)"
  shows "driveState (snd (webhook env cfg req sv)) = snd (deleteFile (hostOf env) p (driveState sv))"
  using assms by (simp add: webhook_def split_def Let_def split: option.splits)

lemma filter_delete_resolveQueries: "filter isDeleteCall (resolveQueries kind nm fs) = []"
  by (simp add: resolveQueries_def)

text \<open>
  Claim C1. A message (a request with a body that is not empty; the handler ignores the
  others) parsed as \<open>DELETE_CONFIRM p\<close> is executed at once, whatever the server has seen
  before: the state of the store after the handler is that of \<open>deleteFile p\<close> on the state
  before, a function of the store alone. When the store answers and the path resolves to
  an entry, the handler issues exactly one delete call, against the identifier of that
  entry, and the entry is gone afterwards.
\<close>

theorem delete_confirm_executes:
  assumes "reqBody req = Some b" and "b \<noteq> []"
    and "parseCommand (hostOf env) b = Inr (DELETE_CONFIRM p)"
    and nf: "faults (driveState sv) = []"
    and res: "resolveEntry (hostOf env) [NotTrashed] p (store (driveState sv)) = Some e"
  shows "driveState (snd (webhook env cfg req sv)) = snd (deleteFile (hostOf env) p (driveState sv))
       \<and> filter isDeleteCall (newCalls env cfg req sv) = [FilesDelete (fileId e)]
       \<and> store (driveState (snd (webhook env cfg req sv))) =
           filter (\<lambda>f. fileId f \<noteq> fileId e) (store (driveState sv))"
  unfolding newCalls_def webhook_delete_confirm_drive[OF assms(1,2,3)] deleteFile_spec[OF nf] res
  by (simp add: filter_delete_resolveQueries)

lemma reparent_all: "set (reparent a ps ps) = {a}"
proof -
  have "filter (\<lambda>p. p \<notin> set ps) ps = []" by (simp add: filter_empty_conv)
  then show ?thesis by (simp add: reparent_def)
qed

text \<open>
  Claim C8. After a successful \<open>moveFile\<close>, in a store whose identifiers are distinct, the
  source entry is still there and its parents are exactly the destination folder's
  identifier, however many parents it had before.
\<close>

theorem moveFile_reparents:
  assumes mv: "moveFile h s t d = (Inr r, d')"
    and ids: "distinct (map fileId (store d))"
  shows "\<exists>src dst. resolveEntry h [NotTrashed] s (store d) = Some src \<and>
           folderIdOf h t (store d) = Some dst \<and>
           (\<exists>f'\<in>set (store d'). fileId f' = fileId src) \<and>
           (\<forall>f'\<in>set (store d'). fileId f' = fileId src \<longrightarrow> set (parents f') = {dst})"
proof -
  from moveFile_success[OF mv] obtain src dst
    where src: "resolveEntry h [NotTrashed] s (store d) = Some src"
      and dst: "folderIdOf h t (store d) = Some dst"
      and st: "store d' = map (\<lambda>f. if fileId f = fileId src
                                then f\<lparr>parents := reparent dst (parents src) (parents f)\<rparr> else f)
                        (store d)"
    by blast
  let ?g = "\<lambda>f. if fileId f = fileId src
                 then f\<lparr>parents := reparent dst (parents src) (parents f)\<rparr> else f"
  from src have mem: "src \<in> set (store d)" by (rule resolveEntry_in_store)
  have uniq: "f = src" if "f \<in> set (store d)" "fileId f = fileId src" for f
    using ids that mem by (meson distinct_map inj_onD)
  have ex: "\<exists>f'\<in>set (store d'). fileId f' = fileId src"
    unfolding st using mem by (auto intro!: bexI[of _ "?g src"])
  have all: "set (parents f') = {dst}" if "f' \<in> set (store d')" "fileId f' = fileId src" for f'
  proof -
    from that(1) obtain f where f: "f \<in> set (store d)" "f' = ?g f" unfolding st by auto
    with that(2) have "fileId f = fileId src" by (auto split: if_splits)
    with uniq f(1) have "f = src" by blast
    with f(2) show ?thesis by (simp add: reparent_all)
  qed
  from src dst ex all show ?thesis by blast
qed

text \<open>
  Claim C10. Two contents that agree on their first 4000 characters give the same request
  to the summary service, and so the same summary; the request's prompt is a header that
  does not depend on the content, followed by at most the first 4000 characters of it.
\<close>

theorem gemini_request_prefix:
  assumes "take 4000 c1 = take 4000 c2"
  shows "geminiRequest key c1 nm = geminiRequest key c2 nm \<and>
         summarizeWithGemini post key c1 nm = summarizeWithGemini post key c2 nm \<and>
         prompt (geminiRequest key c1 nm) = prompt (geminiRequest key [] nm) @ take 4000 c1"
  using assms by (simp add: geminiRequest_def summarizeWithGemini_def)


section \<open>Rotation of the audit log\<close>

lemma rotateLoop_shift:
  assumes "fs (Suc k) = None" and "Suc k \<le> mf - 1"
  shows "rotateLoop mf k fs =
           (\<lambda>i. if 1 \<le> i \<and> i \<le> Suc k \<and> 1 \<le> k then (if i = 1 then None else fs (i - 1)) else fs i)"
  using assms
proof (induction k arbitrary: fs)
  case 0
  then show ?case by simp
next
  case (Suc j)
  let ?fs1 = "(fs(Suc (Suc j) := fs (Suc j)))(Suc j := None)"
  have step: "(let i = Suc j
               in if existsSync fs i
                  then (if i = mf - 1 then unlinkSync fs i else renameSync fs i (i + 1))
                  else fs) = ?fs1"
    using Suc.prems by (auto simp: existsSync_def renameSync_def Let_def fun_eq_iff)
  have "rotateLoop mf (Suc j) fs = rotateLoop mf j ?fs1"
    by (simp only: rotateLoop.simps step)
  also have "\<dots> = (\<lambda>i. if 1 \<le> i \<and> i \<le> Suc j \<and> 1 \<le> j
                          then (if i = 1 then None else ?fs1 (i - 1)) else ?fs1 i)"
    by (rule Suc.IH) (use Suc.prems in auto)
  also have "\<dots> = (\<lambda>i. if 1 \<le> i \<and> i \<le> Suc (Suc j) \<and> 1 \<le> Suc j
                          then (if i = 1 then None else fs (i - 1)) else fs i)"
    by (auto simp: fun_eq_iff)
  finally show ?case .
qed

lemma rotateLoop_top:
  assumes "2 \<le> mf"
  shows "rotateLoop mf (mf - 1) fs =
           (\<lambda>i. if 1 \<le> i \<and> i \<le> mf - 1 then (if i = 1 then None else fs (i - 1)) else fs i)"
proof -
  from assms obtain j where j: "mf - 1 = Suc j" by (cases "mf - 1") auto
  let ?fs1 = "fs(Suc j := None)"
  have step: "(let i = Suc j
               in if existsSync fs i
                  then (if i = mf - 1 then unlinkSync fs i else renameSync fs i (i + 1))
                  else fs) = ?fs1"
    using j by (auto simp: existsSync_def unlinkSync_def Let_def fun_eq_iff)
  have "rotateLoop mf (Suc j) fs = rotateLoop mf j ?fs1"
    by (simp only: rotateLoop.simps step)
  also have "\<dots> = (\<lambda>i. if 1 \<le> i \<and> i \<le> Suc j \<and> 1 \<le> j
                          then (if i = 1 then None else ?fs1 (i - 1)) else ?fs1 i)"
    by (rule rotateLoop_shift) (use j in auto)
  also have "\<dots> = (\<lambda>i. if 1 \<le> i \<and> i \<le> Suc j then (if i = 1 then None else fs (i - 1)) else fs i)"
    by (auto simp: fun_eq_iff)
  finally show ?thesis unfolding j .
qed

lemma rotateLoop_kept:
  "rotateLoop mf (mf - 1) fs =
     (\<lambda>i. if 1 \<le> i \<and> i \<le> mf - 1 then (if i = 1 then None else fs (i - 1)) else fs i)"
proof (cases "2 \<le> mf")
  case True
  then show ?thesis by (rule rotateLoop_top)
next
  case False
  then have "mf - 1 = 0" by simp
  then show ?thesis by (simp add: fun_eq_iff)
qed

lemma rotateLogFile_segments:
  assumes "existsSync fs 0"
  shows "rotateLogFile cfg fs =
     (\<lambda>i. if i = 0 then None else if i = 1 then fs 0
           else if i \<le> maxFiles cfg - 1 then fs (i - 1) else fs i)"
  using assms unfolding rotateLogFile_def Let_def rotateLoop_kept
  by (auto simp: existsSync_def renameSync_def fun_eq_iff)

lemma writeLogEntry_rotated:
  assumes "existsSync (segments st) 0"
    and "maxFileSize cfg < statSize (lineBytes env) (segments st) 0"
  shows "segments (writeLogEntry env cfg e st) =
     (\<lambda>i. if i = 0 then Some [e] else if i = 1 then segments st 0
           else if i \<le> maxFiles cfg - 1 then segments st (i - 1) else segments st i)"
  using assms
  by (auto simp: writeLogEntry_def Let_def rotateLogFile_segments appendFileSync_def fun_eq_iff)


text \<open>
  Claim C3. Let \<open>N\<close> be the number of rotated segments the logger keeps: \<open>maxFiles\<close> is
  \<open>N + 1\<close>, with \<open>N \<ge> 1\<close>. When an append finds the active segment larger than the
  threshold, the new entry is alone in a fresh active segment, the former active segment
  is \<open>.1\<close>, each segment \<open>.1\<close> to \<open>.N-1\<close> has moved up by one, to \<open>.2\<close> to \<open>.N\<close> (so that
  what was in \<open>.N\<close> is dropped), and the segments beyond \<open>.N\<close> are left as they were. When
  none existed beyond \<open>.N\<close>, at most \<open>N\<close> rotated segments and the active one exist
  afterwards.
\<close>

theorem rotation_shifts:
  assumes ex: "existsSync (segments st) 0"
    and big: "maxFileSize cfg < statSize (lineBytes env) (segments st) 0"
    and N: "maxFiles cfg = Suc N" "1 \<le> N"
  shows "segments (writeLogEntry env cfg e st) 0 = Some [e]
       \<and> segments (writeLogEntry env cfg e st) 1 = segments st 0
       \<and> (\<forall>i. 1 \<le> i \<and> i \<le> N - 1 \<longrightarrow>
              segments (writeLogEntry env cfg e st) (Suc i) = segments st i)
       \<and> (\<forall>i. N < i \<longrightarrow> segments (writeLogEntry env cfg e st) i = segments st i)
       \<and> ((\<forall>i. N < i \<longrightarrow> segments st i = None) \<longrightarrow>
              {i. segments (writeLogEntry env cfg e st) i \<noteq> None} \<subseteq> {0..N})"
  unfolding writeLogEntry_rotated[OF ex big] N(1)
  using N(2) by (auto split: if_splits)

section \<open>Session identifiers\<close>

lemma writeLogEntry_trace:
  "appended (writeLogEntry env cfg e st) = appended st @ [e]"
  "randomCalls (writeLogEntry env cfg e st) = randomCalls st"
  by (simp_all add: writeLogEntry_def Let_def)

lemma formatLogEntry_fields:
  "sessionId (fst (formatLogEntry env lvl msg meta st)) =
     random36 env (randomCalls st) @ random36 env (randomCalls st + 1)"
  "metadata (fst (formatLogEntry env lvl msg meta st)) = meta"
  "randomCalls (snd (formatLogEntry env lvl msg meta st)) = randomCalls st + 2"
  "appended (snd (formatLogEntry env lvl msg meta st)) = appended st"
  by (simp_all add: formatLogEntry_def getCurrentTimestamp_def generateSessionId_def)

lemma logged_ops:
  "logged env sid st (logDriveOperation env cfg operation details sid st)"
  "logged env sid st (logAISummarization env cfg fileName fileType summ sid st)"
  "logged env sid st (logError env cfg err ctx sid st)"
  "logged env sid st (logSecurityEvent env cfg event details sid st)"
  by (simp_all add: logged_def logDriveOperation_def logAISummarization_def logError_def
      logSecurityEvent_def split_def Let_def writeLogEntry_trace formatLogEntry_fields)

lemma logCommand_trace:
  assumes "logCommand env cfg mid frm parsed stamp st = (sid, st')"
  shows "\<exists>c. appended st' = appended st @ [c] \<and> sessionId c = sid \<and>
           metadata c = CommandExecution mid frm (commandName parsed) parsed stamp \<and>
           sid = random36 env (randomCalls st) @ random36 env (randomCalls st + 1) \<and>
           randomCalls st' = randomCalls st + 2"
  using assms
  by (auto simp: logCommand_def split_def Let_def writeLogEntry_trace formatLogEntry_fields)

lemma executeCommand_trace:
  assumes "executeCommand env cfg parsed sid d lg = (res, d', lg')"
  shows "lg' = lg \<or> logged (logEnv env) (Some sid) lg lg'"
  using assms by (cases parsed) (auto simp: split_def Let_def logged_ops)

lemma webhook_logState:
  assumes "reqBody req = Some b" and "b \<noteq> []" and "parseCommand (hostOf env) b = Inr parsed"
    and "getCurrentTimestamp (logEnv env) (logState sv) = (stamp, lg0)"
    and "logCommand (logEnv env) cfg (reqMessageSid req) (reqFrom req) parsed stamp lg0 = (sid, lg1)"
    and "executeCommand env cfg parsed sid (driveState sv) lg1 = (res, d1, lg2)"
  shows "logState (snd (webhook env cfg req sv)) = lg2 \<or>
         (\<exists>err. logState (snd (webhook env cfg req sv)) =
                  logError (logEnv env) cfg err (js ''whatsapp_send'') (Some sid) lg2)"
  using assms by (auto simp: webhook_def Let_def split: option.splits)

text \<open>
  Claim C2 (as amended). For a message with a non-empty body, the first entry written is
  the command entry; the session identifier the handler uses is the \<open>sessionId\<close> of that
  entry, and every later entry written for the message carries it in the \<open>sessionId\<close> key
  of its metadata. The \<open>sessionId\<close> field of each entry itself is drawn afresh from the
  random stream.
\<close>

theorem session_in_metadata:
  assumes body: "reqBody req = Some b" and ne: "b \<noteq> []"
  shows "\<exists>c rest. written env cfg req sv = c # rest
       \<and> (\<exists>mid frm cmd prm ts. metadata c = CommandExecution mid frm cmd prm ts)
       \<and> (\<forall>e\<in>set rest. metadataSessionId (metadata e) = Some (sessionId c))
       \<and> (\<forall>i<length (c # rest). sessionId ((c # rest) ! i) =
              random36 (logEnv env) (randomCalls (logState sv) + 2 * i)
              @ random36 (logEnv env) (randomCalls (logState sv) + 2 * i + 1))"
proof -
  let ?E = "logEnv env"
  let ?A = "appended (logState sv)"
  let ?r = "randomCalls (logState sv)"
  obtain parsed where p: "parseCommand (hostOf env) b = Inr parsed"
    using parseCommand_no_error by blast
  obtain stamp lg0 where t: "getCurrentTimestamp ?E (logState sv) = (stamp, lg0)"
    by fastforce
  then have lg0: "appended lg0 = ?A" "randomCalls lg0 = ?r"
    by (auto simp: getCurrentTimestamp_def)
  obtain sid lg1 where lc: "logCommand ?E cfg (reqMessageSid req) (reqFrom req) parsed stamp lg0 = (sid, lg1)"
    by fastforce
  from logCommand_trace[OF lc] lg0 obtain c
    where c: "appended lg1 = ?A @ [c]" "sessionId c = sid"
      "metadata c = CommandExecution (reqMessageSid req) (reqFrom req) (commandName parsed) parsed stamp"
      "sid = random36 ?E ?r @ random36 ?E (?r + 1)" "randomCalls lg1 = ?r + 2"
    by auto
  obtain res d1 lg2 where ex: "executeCommand env cfg parsed sid (driveState sv) lg1 = (res, d1, lg2)"
    by (metis prod_cases3)
  have step2: "\<exists>ops. appended lg2 = ?A @ c # ops \<and> randomCalls lg2 = ?r + 2 + 2 * length ops \<and>
      (\<forall>e\<in>set ops. metadataSessionId (metadata e) = Some sid) \<and>
      (\<forall>i<length ops. sessionId (ops ! i) = random36 ?E (?r + 2 + 2 * i) @ random36 ?E (?r + 2 + 2 * i + 1))"
  proof -
    from executeCommand_trace[OF ex] consider "lg2 = lg1" | "logged ?E (Some sid) lg1 lg2" by blast
    then show ?thesis
    proof cases
      case 1
      with c show ?thesis by (intro exI[of _ "[]"]) simp
    next
      case 2
      then obtain e where "appended lg2 = appended lg1 @ [e]" "metadataSessionId (metadata e) = Some sid"
        "sessionId e = random36 ?E (randomCalls lg1) @ random36 ?E (randomCalls lg1 + 1)"
        "randomCalls lg2 = randomCalls lg1 + 2"
        unfolding logged_def by blast
      with c show ?thesis by (intro exI[of _ "[e]"]) simp
    qed
  qed
  then obtain ops where ops: "appended lg2 = ?A @ c # ops" "randomCalls lg2 = ?r + 2 + 2 * length ops"
      "\<forall>e\<in>set ops. metadataSessionId (metadata e) = Some sid"
      "\<forall>i<length ops. sessionId (ops ! i) = random36 ?E (?r + 2 + 2 * i) @ random36 ?E (?r + 2 + 2 * i + 1)"
    by blast
  let ?lg3 = "logState (snd (webhook env cfg req sv))"
  have step3: "\<exists>rest. appended ?lg3 = ?A @ c # rest \<and>
      (\<forall>e\<in>set rest. metadataSessionId (metadata e) = Some sid) \<and>
      (\<forall>i<length rest. sessionId (rest ! i) = random36 ?E (?r + 2 + 2 * i) @ random36 ?E (?r + 2 + 2 * i + 1))"
  proof -
    from webhook_logState[OF body ne p t lc ex]
    consider "?lg3 = lg2" | err where "?lg3 = logError ?E cfg err (js ''whatsapp_send'') (Some sid) lg2"
      by blast
    then show ?thesis
    proof cases
      case 1
      with ops show ?thesis by (intro exI[of _ ops]) simp
    next
      case 2
      with logged_ops(3)[of ?E "Some sid" lg2 cfg err "(js ''whatsapp_send'')"]
      obtain x where x: "appended ?lg3 = appended lg2 @ [x]" "metadataSessionId (metadata x) = Some sid"
        "sessionId x = random36 ?E (randomCalls lg2) @ random36 ?E (randomCalls lg2 + 1)"
        unfolding logged_def by auto
      have "\<forall>i<length (ops @ [x]). sessionId ((ops @ [x]) ! i) =
              random36 ?E (?r + 2 + 2 * i) @ random36 ?E (?r + 2 + 2 * i + 1)"
        using ops(2,4) x(3) by (auto simp: nth_append less_Suc_eq)
      with ops x show ?thesis by (intro exI[of _ "ops @ [x]"]) auto
    qed
  qed
  then obtain rest where rest: "appended ?lg3 = ?A @ c # rest"
      "\<forall>e\<in>set rest. metadataSessionId (metadata e) = Some sid"
      "\<forall>i<length rest. sessionId (rest ! i) = random36 ?E (?r + 2 + 2 * i) @ random36 ?E (?r + 2 + 2 * i + 1)"
    by blast
  have w: "written env cfg req sv = c # rest"
    by (simp add: written_def rest(1))
  have ids: "\<forall>i<length (c # rest). sessionId ((c # rest) ! i) =
              random36 ?E (?r + 2 * i) @ random36 ?E (?r + 2 * i + 1)"
  proof (intro allI impI)
    fix i assume "i < length (c # rest)"
    then show "sessionId ((c # rest) ! i) = random36 ?E (?r + 2 * i) @ random36 ?E (?r + 2 * i + 1)"
      using c(2,4) rest(3) by (cases i) (auto simp: add.assoc)
  qed
  from w c(2,3) rest(2) ids show ?thesis by blast
qed

section \<open>Casing of paths\<close>

lemma resolveEntry_ci:
  assumes "f \<in> set fs" and "list_all (satisfies f) kind" and "sameNameCI h p f"
  shows "\<exists>g. resolveEntry h kind p fs = Some g"
proof (cases "answer (NameEq p # kind) False fs")
  case Nil
  from assms(1,2) have "f \<in> set (answer kind False fs)" by (simp add: answer_def)
  with assms(3) have "find (sameNameCI h p) (answer kind False fs) \<noteq> None"
    by (auto simp: find_None_iff)
  with Nil show ?thesis by (auto simp: resolveEntry_def)
next
  case (Cons g rest)
  then show ?thesis by (simp add: resolveEntry_def)
qed

text \<open>
  Claim C5 (as amended). Every path field of the intent is a substring of the trimmed,
  upper-cased message: the casing the user typed is not kept. A name matches a path
  without regard to case when their lower-casings are equal; for a typed path whose
  upper-casing has the same lower-casing as the path itself (every ASCII path), a name
  matches the upper-cased path exactly when it matches the typed one. \<open>deleteFile\<close> and
  \<open>listFiles\<close> find an entry of the kind whose name matches the path field in that
  sense.
\<close>

theorem path_casing:
  "(parseCommand h m = Inr i \<and> p \<in> set (intentPaths i) \<longrightarrow>
      sublist p (toUpperCase h (trim m)))
   \<and> (toLowerCase h (toUpperCase h u) = toLowerCase h u \<longrightarrow>
        sameNameCI h (toUpperCase h u) f = sameNameCI h u f)
   \<and> (faults d = [] \<and> f \<in> set (store d) \<and> \<not> trashed f \<and> sameNameCI h q f \<longrightarrow>
        fst (deleteFile h q d) = Inr \<lparr>deletedName = q\<rparr>)
   \<and> (faults d = [] \<and> f \<in> set (store d) \<and> mimeType f = folderMime \<and> sameNameCI h q f \<longrightarrow>
        (\<exists>r. fst (listFiles h q pg d) = Inr r))"
proof (intro conjI impI)
  assume "parseCommand h m = Inr i \<and> p \<in> set (intentPaths i)"
  then show "sublist p (toUpperCase h (trim m))" by (auto intro: parseCommand_paths_sublist)
next
  assume "toLowerCase h (toUpperCase h u) = toLowerCase h u"
  then show "sameNameCI h (toUpperCase h u) f = sameNameCI h u f"
    by (simp add: sameNameCI_def)
next
  assume a: "faults d = [] \<and> f \<in> set (store d) \<and> \<not> trashed f \<and> sameNameCI h q f"
  then have "\<exists>g. resolveEntry h [NotTrashed] q (store d) = Some g"
    by (intro resolveEntry_ci[of f]) auto
  with a show "fst (deleteFile h q d) = Inr \<lparr>deletedName = q\<rparr>"
    by (auto simp: deleteFile_spec)
next
  assume a: "faults d = [] \<and> f \<in> set (store d) \<and> mimeType f = folderMime \<and> sameNameCI h q f"
  then have "\<exists>g. resolveEntry h [MimeEq folderMime] q (store d) = Some g"
    by (intro resolveEntry_ci[of f]) auto
  then have "\<exists>fid. folderIdOf h q (store d) = Some fid"
    by (auto simp: folderIdOf_def)
  with a show "\<exists>r. fst (listFiles h q pg d) = Inr r"
    by (auto simp: listFiles_spec)
qed

section \<open>Concrete runs\<close>

lemmas text_defs = js_def asciiHost_def upperUnit_def lowerUnit_def trim_def isSpace_def
  isLineTerminator_def isDigit_def

lemmas grammar_defs = parseCommand_def rx_test_def rx_match.simps run_def listPagePattern_def
  listPattern_def deleteConfirmPattern_def deletePattern_def movePattern_def summaryPattern_def
  helpPattern_def summaryPath_def startsWith_def includesChar_def

lemmas store_defs = exampleDrive_def exampleFiles_def reportFile_def archiveFolder_def
  notesFile_def folderMime_def

lemma hostOf_example [simp]: "hostOf exampleEnv = asciiHost"
  by (simp add: hostOf_def exampleEnv_def exampleLogEnv_def)

lemma parse_delete_report:
  "parseCommand asciiHost (js ''delete Report.pdf'') = Inr (DELETE_REQUEST (js ''REPORT.PDF''))"
  by (simp add: text_defs grammar_defs)

lemma parse_delete_confirm:
  "parseCommand asciiHost (js ''delete report.pdf confirm'') = Inr (DELETE_CONFIRM (js ''REPORT.PDF''))"
  by (simp add: text_defs grammar_defs)

lemma parse_summary_report:
  "parseCommand asciiHost (js ''summary Report.pdf'') = Inr (SUMMARY (js ''REPORT.PDF''))"
  by (simp add: text_defs grammar_defs)

lemma resolve_report:
  "resolveEntry asciiHost [NotTrashed] (js ''REPORT.PDF'') exampleFiles = Some reportFile"
  by (simp add: resolveEntry_def answer_def sameNameCI_def store_defs text_defs)

lemma resolve_report_queries:
  "resolveQueries [NotTrashed] (js ''REPORT.PDF'') exampleFiles =
     [FilesList [NameEq (js ''REPORT.PDF''), NotTrashed] False, FilesList [NotTrashed] False]"
  by (simp add: resolveQueries_def answer_def store_defs text_defs)

lemma resolve_missing:
  "resolveEntry asciiHost [NotTrashed] (js ''NOPE.TXT'') exampleFiles = None"
  "resolveQueries [NotTrashed] (js ''NOPE.TXT'') exampleFiles =
     [FilesList [NameEq (js ''NOPE.TXT''), NotTrashed] False, FilesList [NotTrashed] False]"
  by (simp_all add: resolveEntry_def resolveQueries_def answer_def sameNameCI_def store_defs text_defs)

lemma without_report:
  "filter (\<lambda>f. fileId f \<noteq> fileId reportFile) exampleFiles = [archiveFolder, notesFile]"
  by (simp add: exampleFiles_def reportFile_def archiveFolder_def notesFile_def js_def)

theorem path_casing_witness:
  "parseCommand asciiHost (js ''delete Report.pdf'') = Inr (DELETE_REQUEST (js ''REPORT.PDF''))
   \<and> js ''REPORT.PDF'' \<in> set (intentPaths (DELETE_REQUEST (js ''REPORT.PDF'')))
   \<and> sublist (js ''REPORT.PDF'') (toUpperCase asciiHost (trim (js ''delete Report.pdf'')))
   \<and> toLowerCase asciiHost (toUpperCase asciiHost (js ''Report.pdf'')) =
       toLowerCase asciiHost (js ''Report.pdf'')
   \<and> sameNameCI asciiHost (toUpperCase asciiHost (js ''Report.pdf'')) reportFile =
       sameNameCI asciiHost (js ''Report.pdf'') reportFile
   \<and> faults exampleDrive = [] \<and> reportFile \<in> set (store exampleDrive) \<and> \<not> trashed reportFile
   \<and> sameNameCI asciiHost (js ''REPORT.PDF'') reportFile
   \<and> fst (deleteFile asciiHost (js ''REPORT.PDF'') exampleDrive) = Inr \<lparr>deletedName = js ''REPORT.PDF''\<rparr>
   \<and> mimeType archiveFolder = folderMime \<and> sameNameCI asciiHost (js ''ARCHIVE'') archiveFolder
   \<and> (\<exists>r. fst (listFiles asciiHost (js ''ARCHIVE'') (Num 1) exampleDrive) = Inr r)"
proof -
  have h1: "parseCommand asciiHost (js ''delete Report.pdf'') = Inr (DELETE_REQUEST (js ''REPORT.PDF''))
            \<and> js ''REPORT.PDF'' \<in> set (intentPaths (DELETE_REQUEST (js ''REPORT.PDF'')))"
    using parse_delete_report by simp
  have h0: "toLowerCase asciiHost (toUpperCase asciiHost (js ''Report.pdf'')) =
       toLowerCase asciiHost (js ''Report.pdf'')"
    by (simp add: text_defs)
  have h2: "faults exampleDrive = [] \<and> reportFile \<in> set (store exampleDrive) \<and> \<not> trashed reportFile
            \<and> sameNameCI asciiHost (js ''REPORT.PDF'') reportFile"
    by (simp add: exampleDrive_def exampleFiles_def reportFile_def sameNameCI_def text_defs)
  have h3: "faults exampleDrive = [] \<and> archiveFolder \<in> set (store exampleDrive)
            \<and> mimeType archiveFolder = folderMime \<and> sameNameCI asciiHost (js ''ARCHIVE'') archiveFolder"
    by (simp add: exampleDrive_def exampleFiles_def archiveFolder_def sameNameCI_def text_defs)
  from path_casing[of asciiHost "js ''delete Report.pdf''" "DELETE_REQUEST (js ''REPORT.PDF'')"
      "js ''REPORT.PDF''" "js ''Report.pdf''" reportFile exampleDrive "js ''REPORT.PDF''"] h1 h0 h2
  have a: "sublist (js ''REPORT.PDF'') (toUpperCase asciiHost (trim (js ''delete Report.pdf'')))
      \<and> sameNameCI asciiHost (toUpperCase asciiHost (js ''Report.pdf'')) reportFile =
          sameNameCI asciiHost (js ''Report.pdf'') reportFile
      \<and> fst (deleteFile asciiHost (js ''REPORT.PDF'') exampleDrive) = Inr \<lparr>deletedName = js ''REPORT.PDF''\<rparr>"
    by blast
  from path_casing[of asciiHost _ _ _ _ archiveFolder exampleDrive "js ''ARCHIVE''" "Num 1"] h3
  have b: "\<exists>r. fst (listFiles asciiHost (js ''ARCHIVE'') (Num 1) exampleDrive) = Inr r"
    by blast
  from h1 h0 h2 h3 a b show ?thesis by blast
qed

text \<open>
  The prompt for \<open>delete Report.pdf\<close> shows \<open>REPORT.PDF\<close>, not the path as typed.
\<close>

theorem path_casing_counterexample:
  "parseCommand asciiHost (js ''delete Report.pdf'') = Inr (DELETE_REQUEST (js ''REPORT.PDF''))
   \<and> \<not> sublist (js ''Report.pdf'') (deleteRequestPrompt (js ''REPORT.PDF''))
   \<and> sublist (js ''File: REPORT.PDF'') (deleteRequestPrompt (js ''REPORT.PDF''))"
proof -
  have a: "\<not> sublist (js ''Report.pdf'') (deleteRequestPrompt (js ''REPORT.PDF''))"
    by (simp add: deleteRequestPrompt_def warningSign_def policeLight_def lightBulb_def newline_def
        js_def sublist_Cons_right prefix_Cons)
  have "deleteRequestPrompt (js ''REPORT.PDF'') =
      (warningSign @ js '' DELETE CONFIRMATION REQUIRED'' @ newline @ newline)
      @ js ''File: REPORT.PDF''
      @ (newline @ newline
     @ policeLight @ js '' This action cannot be undone!'' @ newline @ newline
     @ js ''To confirm deletion, send:'' @ newline
     @ js ''DELETE '' @ js ''REPORT.PDF'' @ js '' CONFIRM'' @ newline @ newline
     @ lightBulb @ js '' Or send any other message to cancel.'')"
    by (simp add: deleteRequestPrompt_def js_def)
  then have b: "sublist (js ''File: REPORT.PDF'') (deleteRequestPrompt (js ''REPORT.PDF''))"
    unfolding sublist_def by blast
  from parse_delete_report a b show ?thesis by blast
qed

theorem delete_confirm_executes_witness:
  "reqBody (exampleRequest ''delete report.pdf confirm'') = Some (js ''delete report.pdf confirm'')
   \<and> js ''delete report.pdf confirm'' \<noteq> []
   \<and> parseCommand (hostOf exampleEnv) (js ''delete report.pdf confirm'')
       = Inr (DELETE_CONFIRM (js ''REPORT.PDF''))
   \<and> faults (driveState (freshServer exampleFiles)) = []
   \<and> resolveEntry (hostOf exampleEnv) [NotTrashed] (js ''REPORT.PDF'')
        (store (driveState (freshServer exampleFiles))) = Some reportFile
   \<and> appended (logState (freshServer exampleFiles)) = []
   \<and> calls (driveState (freshServer exampleFiles)) = []
   \<and> filter isDeleteCall (newCalls exampleEnv (newConfig None None)
          (exampleRequest ''delete report.pdf confirm'') (freshServer exampleFiles))
        = [FilesDelete (js ''id-report'')]
   \<and> store (driveState (snd (webhook exampleEnv (newConfig None None)
          (exampleRequest ''delete report.pdf confirm'') (freshServer exampleFiles))))
        = [archiveFolder, notesFile]"
proof -
  have h1: "reqBody (exampleRequest ''delete report.pdf confirm'') = Some (js ''delete report.pdf confirm'')"
    by (simp add: exampleRequest_def)
  have h2: "js ''delete report.pdf confirm'' \<noteq> []" by (simp add: js_def)
  have hp: "parseCommand (hostOf exampleEnv) (js ''delete report.pdf confirm'')
       = Inr (DELETE_CONFIRM (js ''REPORT.PDF''))"
    by (simp add: parse_delete_confirm)
  have h3: "faults (driveState (freshServer exampleFiles)) = []"
    by (simp add: freshServer_def)
  have st: "store (driveState (freshServer exampleFiles)) = exampleFiles"
    by (simp add: freshServer_def)
  have fresh: "appended (logState (freshServer exampleFiles)) = []"
    "calls (driveState (freshServer exampleFiles)) = []"
    by (simp_all add: freshServer_def)
  have res: "resolveEntry (hostOf exampleEnv) [NotTrashed] (js ''REPORT.PDF'')
               (store (driveState (freshServer exampleFiles))) = Some reportFile"
    by (simp add: st resolve_report)
  have "filter isDeleteCall (newCalls exampleEnv (newConfig None None)
          (exampleRequest ''delete report.pdf confirm'') (freshServer exampleFiles))
        = [FilesDelete (fileId reportFile)]
      \<and> store (driveState (snd (webhook exampleEnv (newConfig None None)
          (exampleRequest ''delete report.pdf confirm'') (freshServer exampleFiles))))
        = filter (\<lambda>f. fileId f \<noteq> fileId reportFile) exampleFiles"
    using delete_confirm_executes[OF h1 h2 hp h3 res, of "newConfig None None"]
    unfolding st by blast
  then have "filter isDeleteCall (newCalls exampleEnv (newConfig None None)
          (exampleRequest ''delete report.pdf confirm'') (freshServer exampleFiles))
        = [FilesDelete (js ''id-report'')]
      \<and> store (driveState (snd (webhook exampleEnv (newConfig None None)
          (exampleRequest ''delete report.pdf confirm'') (freshServer exampleFiles))))
        = [archiveFolder, notesFile]"
    unfolding without_report by (simp add: reportFile_def)
  with h1 h2 hp h3 res fresh show ?thesis by blast
qed

theorem session_in_metadata_witness:
  "reqBody (exampleRequest ''delete report.pdf confirm'') = Some (js ''delete report.pdf confirm'')
   \<and> js ''delete report.pdf confirm'' \<noteq> []
   \<and> (\<exists>c rest. written exampleEnv (newConfig None None)
                   (exampleRequest ''delete report.pdf confirm'') (freshServer exampleFiles) = c # rest
         \<and> (\<exists>mid frm cmd prm ts. metadata c = CommandExecution mid frm cmd prm ts)
         \<and> (\<forall>e\<in>set rest. metadataSessionId (metadata e) = Some (sessionId c))
         \<and> (\<forall>i<length (c # rest). sessionId ((c # rest) ! i) =
               random36 (logEnv exampleEnv) (randomCalls (logState (freshServer exampleFiles)) + 2 * i)
               @ random36 (logEnv exampleEnv)
                   (randomCalls (logState (freshServer exampleFiles)) + 2 * i + 1)))"
proof -
  have h1: "reqBody (exampleRequest ''delete report.pdf confirm'') = Some (js ''delete report.pdf confirm'')"
    by (simp add: exampleRequest_def)
  have h2: "js ''delete report.pdf confirm'' \<noteq> []" by (simp add: js_def)
  from session_in_metadata[OF h1 h2, of exampleEnv "newConfig None None" "freshServer exampleFiles"] h1 h2
  show ?thesis by blast
qed

text \<open>
  The two entries written for one \<open>DELETE ... CONFIRM\<close> message have different
  \<open>sessionId\<close> fields.
\<close>

theorem session_identifier_counterexample:
  "map sessionId (written exampleEnv (newConfig None None)
      (exampleRequest ''delete report.pdf confirm'') (freshServer exampleFiles))
     = [js ''q1w2e3r4t5y6'', js ''u7i8o9p0a1s2'']"
proof -
  have p: "parseCommand (hostOf exampleEnv) (js ''delete report.pdf confirm'')
       = Inr (DELETE_CONFIRM (js ''REPORT.PDF''))"
    by (simp add: parse_delete_confirm)
  have ne: "js ''delete report.pdf confirm'' \<noteq> []" by (simp add: js_def)
  have r: "random36 exampleLogEnv 0 @ random36 exampleLogEnv (Suc 0) = js ''q1w2e3r4t5y6''"
    "random36 exampleLogEnv (Suc (Suc 0)) @ random36 exampleLogEnv (Suc (Suc (Suc 0)))
       = js ''u7i8o9p0a1s2''"
    by (simp_all add: exampleLogEnv_def js_def)
  have e: "logEnv exampleEnv = exampleLogEnv" "twilioCreate exampleEnv = (\<lambda>t b. None)"
    by (simp_all add: exampleEnv_def)
  show ?thesis
    unfolding written_def webhook_def
    by (simp add: parse_delete_confirm ne r e exampleRequest_def
      freshServer_def logCommand_def logDriveOperation_def formatLogEntry_def
      getCurrentTimestamp_def generateSessionId_def writeLogEntry_def split_def Let_def
      formatWhatsAppResponse_def)
qed

lemma example_rotation_due:
  "existsSync (segments exampleLogger) 0"
  "maxFileSize (newConfig (Some 100) None)
     < statSize (lineBytes exampleLogEnv) (segments exampleLogger) 0"
  by (simp_all add: exampleLogger_def exampleDisk_def existsSync_def statSize_def newConfig_def
      orDefault_def exampleLogEnv_def)

theorem rotation_shifts_witness:
  "existsSync (segments exampleLogger) 0
   \<and> maxFileSize (newConfig (Some 100) None)
       < statSize (lineBytes exampleLogEnv) (segments exampleLogger) 0
   \<and> maxFiles (newConfig (Some 100) None) = Suc 4
   \<and> (1::nat) \<le> 4
   \<and> segments exampleLogger 3 = Some [exampleEntry ''a3'']
   \<and> segments exampleLogger 4 = Some [exampleEntry ''a4'']
   \<and> segments (writeLogEntry exampleLogEnv (newConfig (Some 100) None) (exampleEntry ''new'')
        exampleLogger) 0 = Some [exampleEntry ''new'']
   \<and> segments (writeLogEntry exampleLogEnv (newConfig (Some 100) None) (exampleEntry ''new'')
        exampleLogger) 1 = Some [exampleEntry ''a0'']
   \<and> segments (writeLogEntry exampleLogEnv (newConfig (Some 100) None) (exampleEntry ''new'')
        exampleLogger) 4 = Some [exampleEntry ''a3'']
   \<and> segments (writeLogEntry exampleLogEnv (newConfig (Some 100) None) (exampleEntry ''new'')
        exampleLogger) 5 = None
   \<and> {i. segments (writeLogEntry exampleLogEnv (newConfig (Some 100) None) (exampleEntry ''new'')
        exampleLogger) i \<noteq> None} \<subseteq> {0..4}"
proof -
  let ?W = "segments (writeLogEntry exampleLogEnv (newConfig (Some 100) None) (exampleEntry ''new'')
        exampleLogger)"
  have mf: "maxFiles (newConfig (Some 100) None) = Suc 4"
    by (simp add: newConfig_def orDefault_def)
  have n: "(1::nat) \<le> 4" by simp
  note R = rotation_shifts[OF example_rotation_due mf n, of "exampleEntry ''new''"]
  have old: "segments exampleLogger 3 = Some [exampleEntry ''a3'']"
    "segments exampleLogger 4 = Some [exampleEntry ''a4'']"
    "segments exampleLogger 0 = Some [exampleEntry ''a0'']"
    "segments exampleLogger 5 = None"
    by (simp_all add: exampleLogger_def exampleDisk_def)
  have none: "\<forall>i. 4 < i \<longrightarrow> segments exampleLogger i = None"
    by (simp add: exampleLogger_def exampleDisk_def)
  from R have w0: "?W 0 = Some [exampleEntry ''new'']" and w1: "?W 1 = segments exampleLogger 0"
    by blast+
  from R have "1 \<le> (3::nat) \<and> 3 \<le> (4::nat) - 1 \<longrightarrow> ?W (Suc 3) = segments exampleLogger 3"
    by blast
  then have w4: "?W 4 = segments exampleLogger 3" by simp
  from R have "(4::nat) < 5 \<longrightarrow> ?W 5 = segments exampleLogger 5" by blast
  then have w5: "?W 5 = segments exampleLogger 5" by simp
  from R none have sub: "{i. ?W i \<noteq> None} \<subseteq> {0..4}" by blast
  from example_rotation_due mf n old w0 w1 w4 w5 sub show ?thesis by simp
qed

lemma example_children:
  "children (js ''root'') exampleFiles = [archiveFolder, reportFile, notesFile]"
  by (simp add: children_def store_defs js_def)

theorem listFiles_pagination_witness:
  "faults exampleDrive = []
   \<and> folderIdOf asciiHost (js ''/'') (store exampleDrive) = Some (js ''root'')
   \<and> (1::int) \<le> 1
   \<and> (\<exists>r d'. listFiles asciiHost (js ''/'') (Num 1) exampleDrive = (Inr r, d') \<and> page r = Num 1 \<and>
          totalFiles r = 3 \<and> totalPages r = 1 \<and> files r = [archiveFolder, reportFile, notesFile])"
proof -
  have h1: "faults exampleDrive = []" by (simp add: exampleDrive_def)
  have h2: "folderIdOf asciiHost (js ''/'') (store exampleDrive) = Some (js ''root'')"
    by (simp add: folderIdOf_def)
  have h3: "(1::int) \<le> 1" by simp
  have st: "store exampleDrive = exampleFiles" by (simp add: exampleDrive_def)
  from listFiles_pagination[OF h1 h2 h3] obtain r d'
    where r: "listFiles asciiHost (js ''/'') (Num 1) exampleDrive = (Inr r, d')" "page r = Num 1"
      "totalFiles r = length (children (js ''root'') (store exampleDrive))"
      "totalPages r = \<lceil>real (length (children (js ''root'') (store exampleDrive))) / 10\<rceil>"
      "files r = take 10 (drop (nat ((1 - 1) * 10)) (children (js ''root'') (store exampleDrive)))"
    by blast
  from r(3) have t: "totalFiles r = 3" by (simp add: st example_children)
  from r(4) have tp: "totalPages r = 1" by (simp add: st example_children)
  from r(5) have f: "files r = [archiveFolder, reportFile, notesFile]"
    by (simp add: st example_children)
  from r(1,2) t tp f h1 h2 h3 show ?thesis by blast
qed

lemma example_move:
  "moveFile asciiHost (js ''REPORT.PDF'') (js ''ARCHIVE'') exampleDrive =
     (Inr \<lparr>movedName = js ''REPORT.PDF'', destination = js ''ARCHIVE''\<rparr>,
      \<lparr>store = [reportFile\<lparr>parents := [js ''id-archive'']\<rparr>, archiveFolder, notesFile],
       calls = [FilesList [NameEq (js ''REPORT.PDF''), NotTrashed] False, FilesList [NotTrashed] False,
                FilesList [NameEq (js ''ARCHIVE''), MimeEq folderMime] False,
                FilesList [MimeEq folderMime] False,
                FilesUpdate (js ''id-report'') (js ''id-archive'') [js ''root'', js ''id-shared'']],
       faults = []\<rparr>)"
proof -
  have nf: "faults exampleDrive = []" by (simp add: exampleDrive_def)
  have st: "store exampleDrive = exampleFiles" "calls exampleDrive = []"
    by (simp_all add: exampleDrive_def)
  have dst: "folderIdOf asciiHost (js ''ARCHIVE'') exampleFiles = Some (js ''id-archive'')"
    by (simp add: folderIdOf_def resolveEntry_def answer_def sameNameCI_def store_defs text_defs)
  have fq: "folderQueries (js ''ARCHIVE'') exampleFiles =
      [FilesList [NameEq (js ''ARCHIVE''), MimeEq folderMime] False, FilesList [MimeEq folderMime] False]"
    by (simp add: folderQueries_def resolveQueries_def answer_def exampleFiles_def reportFile_def
        archiveFolder_def notesFile_def text_defs)
  have rf: "fileId reportFile = js ''id-report''" "parents reportFile = [js ''root'', js ''id-shared'']"
    by (simp_all add: reportFile_def)
  have upd: "map (\<lambda>f. if fileId f = fileId reportFile
                       then f\<lparr>parents := reparent (js ''id-archive'') (parents reportFile) (parents f)\<rparr>
                       else f) exampleFiles
             = [reportFile\<lparr>parents := [js ''id-archive'']\<rparr>, archiveFolder, notesFile]"
    by (simp add: exampleFiles_def reportFile_def archiveFolder_def notesFile_def reparent_def js_def)
  show ?thesis
    unfolding moveFile_spec[OF nf] st resolve_report dst fq resolve_report_queries
    by (simp add: upd exampleDrive_def, simp add: rf)
qed

theorem moveFile_reparents_witness:
  "moveFile asciiHost (js ''REPORT.PDF'') (js ''ARCHIVE'') exampleDrive =
     (Inr \<lparr>movedName = js ''REPORT.PDF'', destination = js ''ARCHIVE''\<rparr>,
      \<lparr>store = [reportFile\<lparr>parents := [js ''id-archive'']\<rparr>, archiveFolder, notesFile],
       calls = [FilesList [NameEq (js ''REPORT.PDF''), NotTrashed] False, FilesList [NotTrashed] False,
                FilesList [NameEq (js ''ARCHIVE''), MimeEq folderMime] False,
                FilesList [MimeEq folderMime] False,
                FilesUpdate (js ''id-report'') (js ''id-archive'') [js ''root'', js ''id-shared'']],
       faults = []\<rparr>)
   \<and> distinct (map fileId (store exampleDrive))
   \<and> parents reportFile = [js ''root'', js ''id-shared'']
   \<and> (\<exists>src dst. resolveEntry asciiHost [NotTrashed] (js ''REPORT.PDF'') (store exampleDrive) = Some src \<and>
          folderIdOf asciiHost (js ''ARCHIVE'') (store exampleDrive) = Some dst \<and>
          (\<exists>f'\<in>set [reportFile\<lparr>parents := [js ''id-archive'']\<rparr>, archiveFolder, notesFile].
              fileId f' = fileId src) \<and>
          (\<forall>f'\<in>set [reportFile\<lparr>parents := [js ''id-archive'']\<rparr>, archiveFolder, notesFile].
              fileId f' = fileId src \<longrightarrow> set (parents f') = {dst}))"
proof -
  have h2: "distinct (map fileId (store exampleDrive))"
    by (simp add: exampleDrive_def exampleFiles_def reportFile_def archiveFolder_def notesFile_def js_def)
  have h3: "parents reportFile = [js ''root'', js ''id-shared'']" by (simp add: reportFile_def)
  from moveFile_reparents[OF example_move h2] example_move h2 h3 show ?thesis
    by simp
qed

theorem gemini_request_prefix_witness:
  "take 4000 (replicate 4000 97 @ js ''first tail'') = take 4000 (replicate 4000 97 @ js ''another tail'')
   \<and> geminiRequest (js ''key'') (replicate 4000 97 @ js ''first tail'') (js ''notes.txt'')
       = geminiRequest (js ''key'') (replicate 4000 97 @ js ''another tail'') (js ''notes.txt'')
   \<and> prompt (geminiRequest (js ''key'') (replicate 4000 97 @ js ''first tail'') (js ''notes.txt''))
       = prompt (geminiRequest (js ''key'') [] (js ''notes.txt'')) @ replicate 4000 97"
proof -
  have h: "take 4000 (replicate 4000 97 @ js ''first tail'')
           = take 4000 (replicate 4000 (97::nat) @ js ''another tail'')"
    by simp
  from gemini_request_prefix[OF h, of "js ''key''" "js ''notes.txt''" "\<lambda>r. Inr None"]
  have "geminiRequest (js ''key'') (replicate 4000 97 @ js ''first tail'') (js ''notes.txt'')
          = geminiRequest (js ''key'') (replicate 4000 97 @ js ''another tail'') (js ''notes.txt'')"
    and "prompt (geminiRequest (js ''key'') (replicate 4000 97 @ js ''first tail'') (js ''notes.txt''))
          = prompt (geminiRequest (js ''key'') [] (js ''notes.txt''))
            @ take 4000 (replicate 4000 97 @ js ''first tail'')"
    by blast+
  with h show ?thesis by simp
qed

theorem resolution_two_phase_witness:
  "faults exampleDrive = []
   \<and> deleteFile asciiHost (js ''REPORT.PDF'') exampleDrive =
       (Inr \<lparr>deletedName = js ''REPORT.PDF''\<rparr>,
        exampleDrive\<lparr>calls := [FilesList [NameEq (js ''REPORT.PDF''), NotTrashed] False,
                               FilesList [NotTrashed] False, FilesDelete (js ''id-report'')],
                     store := [archiveFolder, notesFile]\<rparr>)
   \<and> deleteFile asciiHost (js ''NOPE.TXT'') exampleDrive =
       (Inl (js ''File '' @ quoted (js ''NOPE.TXT'') @ js '' not found''),
        exampleDrive\<lparr>calls := [FilesList [NameEq (js ''NOPE.TXT''), NotTrashed] False,
                               FilesList [NotTrashed] False]\<rparr>)"
proof -
  have h: "faults exampleDrive = []" by (simp add: exampleDrive_def)
  have st: "store exampleDrive = exampleFiles" "calls exampleDrive = []"
    by (simp_all add: exampleDrive_def)
  from resolution_two_phase[OF h, of asciiHost "js ''REPORT.PDF''"]
  have a: "deleteFile asciiHost (js ''REPORT.PDF'') exampleDrive =
       (Inr \<lparr>deletedName = js ''REPORT.PDF''\<rparr>,
        exampleDrive\<lparr>calls := [FilesList [NameEq (js ''REPORT.PDF''), NotTrashed] False,
                               FilesList [NotTrashed] False, FilesDelete (fileId reportFile)],
                     store := filter (\<lambda>f. fileId f \<noteq> fileId reportFile) exampleFiles\<rparr>)"
    by (simp add: st resolve_report resolve_report_queries)
  from resolution_two_phase[OF h, of asciiHost "js ''NOPE.TXT''"]
  have b: "deleteFile asciiHost (js ''NOPE.TXT'') exampleDrive =
       (Inl (js ''File '' @ quoted (js ''NOPE.TXT'') @ js '' not found''),
        exampleDrive\<lparr>calls := [FilesList [NameEq (js ''NOPE.TXT''), NotTrashed] False,
                               FilesList [NotTrashed] False]\<rparr>)"
    by (simp add: st resolve_missing)
  have a': "deleteFile asciiHost (js ''REPORT.PDF'') exampleDrive =
       (Inr \<lparr>deletedName = js ''REPORT.PDF''\<rparr>,
        exampleDrive\<lparr>calls := [FilesList [NameEq (js ''REPORT.PDF''), NotTrashed] False,
                               FilesList [NotTrashed] False, FilesDelete (js ''id-report'')],
                     store := [archiveFolder, notesFile]\<rparr>)"
    unfolding a without_report by (simp add: reportFile_def)
  from h a' b show ?thesis by blast
qed

text \<open>
  Claim C7. The two-phase resolution is not what \<open>summarizeSpecificFile\<close> does. For the
  message \<open>summary Report.pdf\<close> over a store that holds \<open>Report.pdf\<close>, the path of the
  intent is \<open>REPORT.PDF\<close>; the resolution finds the entry in its second phase, and
  \<open>deleteFile\<close> on the same path succeeds; the summary makes the exact query only and
  answers that the file is not found.
\<close>

theorem summary_lookup_exact_only:
  "parseCommand asciiHost (js ''summary Report.pdf'') = Inr (SUMMARY (js ''REPORT.PDF''))
   \<and> resolveEntry asciiHost [NotTrashed] (js ''REPORT.PDF'') (store exampleDrive) = Some reportFile
   \<and> fst (deleteFile asciiHost (js ''REPORT.PDF'') exampleDrive) = Inr \<lparr>deletedName = js ''REPORT.PDF''\<rparr>
   \<and> summarizeContent asciiHost (geminiPost exampleEnv) (apiKey exampleEnv) (js ''REPORT.PDF'') exampleDrive
       = (Inl (js ''File '' @ quoted (js ''REPORT.PDF'') @ js '' not found''),
          exampleDrive\<lparr>calls := [FilesList [NameEq (js ''REPORT.PDF''), NotTrashed] False]\<rparr>)"
proof -
  have nf: "faults exampleDrive = []" by (simp add: exampleDrive_def)
  have st: "store exampleDrive = exampleFiles" "calls exampleDrive = []"
    by (simp_all add: exampleDrive_def)
  have none: "answer [NameEq (js ''REPORT.PDF''), NotTrashed] False (store exampleDrive) = []"
    by (simp add: answer_def store_defs text_defs)
  have isFile: "includesChar (js ''REPORT.PDF'') 0x2E \<and> \<not> endsWith (js ''REPORT.PDF'') (js ''/'')"
    by (simp add: includesChar_def endsWith_def js_def)
  have s: "summarizeContent asciiHost (geminiPost exampleEnv) (apiKey exampleEnv) (js ''REPORT.PDF'')
        exampleDrive
       = (Inl (js ''File '' @ quoted (js ''REPORT.PDF'') @ js '' not found''),
          exampleDrive\<lparr>calls := [FilesList [NameEq (js ''REPORT.PDF''), NotTrashed] False]\<rparr>)"
    unfolding summarizeContent_def Let_def
    by (simp add: isFile summarizeSpecificFile_exact_only[OF nf none] st)
  have d: "fst (deleteFile asciiHost (js ''REPORT.PDF'') exampleDrive) = Inr \<lparr>deletedName = js ''REPORT.PDF''\<rparr>"
    by (simp add: deleteFile_spec[OF nf] st resolve_report)
  from parse_summary_report resolve_report s d st show ?thesis by simp
qed

text \<open>
  A name with U+00DF is not found under the path the grammar makes of it: the
  lower-casing of \<open>STRASSE.PDF\<close> is not the name.
\<close>

lemma sharp_s_not_found:
  "parseCommand latinHost (js ''delete stra'' @ [0xDF] @ js ''e.pdf confirm'')
     = Inr (DELETE_CONFIRM (js ''STRASSE.PDF''))
   \<and> deleteFile latinHost (js ''STRASSE.PDF'') streetDrive
     = (Inl (js ''File '' @ quoted (js ''STRASSE.PDF'') @ js '' not found''),
        streetDrive\<lparr>calls := [FilesList [NameEq (js ''STRASSE.PDF''), NotTrashed] False,
                               FilesList [NotTrashed] False]\<rparr>)"
proof -
  have p: "parseCommand latinHost (js ''delete stra'' @ [0xDF] @ js ''e.pdf confirm'')
     = Inr (DELETE_CONFIRM (js ''STRASSE.PDF''))"
    by (simp add: latinHost_def upperExpand_def js_def upperUnit_def trim_def isSpace_def
        isLineTerminator_def grammar_defs)
  have nf: "faults streetDrive = []" by (simp add: streetDrive_def)
  have st: "store streetDrive = [streetFile]" "calls streetDrive = []"
    by (simp_all add: streetDrive_def)
  have r: "resolveEntry latinHost [NotTrashed] (js ''STRASSE.PDF'') [streetFile] = None"
    "resolveQueries [NotTrashed] (js ''STRASSE.PDF'') [streetFile] =
       [FilesList [NameEq (js ''STRASSE.PDF''), NotTrashed] False, FilesList [NotTrashed] False]"
    by (simp_all add: resolveEntry_def resolveQueries_def answer_def sameNameCI_def streetFile_def
        latinHost_def lowerUnit_def js_def)
  have d: "deleteFile latinHost (js ''STRASSE.PDF'') streetDrive
     = (Inl (js ''File '' @ quoted (js ''STRASSE.PDF'') @ js '' not found''),
        streetDrive\<lparr>calls := [FilesList [NameEq (js ''STRASSE.PDF''), NotTrashed] False,
                               FilesList [NotTrashed] False]\<rparr>)"
    by (simp add: deleteFile_spec[OF nf] st r)
  from p d show ?thesis by blast
qed

end
